theory Spec2Isabelle
  imports Complex_Main "HOL-Library.Multiset"
begin

section \<open>The directed-graph container of Digraph.hpp\<close>

text \<open>
  The class template \<open>Digraph\<close> keeps five members: the map \<open>m\<close>
  from vertex numbers to vertex records, the vector \<open>v\<close> of vertex numbers, the vector
  \<open>e\<close> of (from, to) pairs and the two counters. The members are called \<open>g_m\<close>,
  \<open>g_v\<close> and \<open>g_e\<close> here, since one-letter constants would capture the variables of
  every later statement. Vertex numbers and counters are C++ \<open>int\<close>; they are modelled
  as unbounded integers, no statement below depends on a counter passing \<open>2^31 - 1\<close>.
\<close>

record 'e DigraphEdge =
  fromVertex :: int
  toVertex :: int
  einfo :: 'e

record ('v, 'e) DigraphVertex =
  vinfo :: 'v
  edges :: "'e DigraphEdge list"

record ('v, 'e) Digraph =
  g_m :: "int \<rightharpoonup> ('v, 'e) DigraphVertex"
  g_v :: "int list"
  g_e :: "(int \<times> int) list"
  vertexC :: int
  edgeC :: int

text \<open>
  Every exception the code throws itself is a \<open>DigraphException\<close>; the four reasons it is
  thrown with are told apart by constructor (\<open>"Vertex n not exist"\<close>, \<open>"Vertex n exist"\<close>,
  \<open>"No such edge exist"\<close>, \<open>"Edge exist"\<close>). \<open>StdOutOfRange\<close> is the
  \<open>std::out_of_range\<close> of \<open>map::at\<close>; \<open>OutOfBounds i\<close> marks an access the C++ standard
  leaves undefined: \<open>operator[]\<close> or \<open>erase\<close> at position \<open>i\<close> outside the vector.
\<close>

datatype error =
    NoSuchVertex int
  | VertexAlreadyExists int
  | NoSuchEdge
  | EdgeAlreadyExists
  | StdOutOfRange
  | OutOfBounds int

fun is_DigraphException :: "error \<Rightarrow> bool" where
  "is_DigraphException (NoSuchVertex n) = True"
| "is_DigraphException (VertexAlreadyExists n) = True"
| "is_DigraphException NoSuchEdge = True"
| "is_DigraphException EdgeAlreadyExists = True"
| "is_DigraphException StdOutOfRange = False"
| "is_DigraphException (OutOfBounds i) = False"

text \<open>
  A \<open>const\<close> member function returns \<open>error + 'a\<close>. A mutating member function returns
  the exception it threw, if any, together with the state of the object at that moment,
  so that a partial mutation before a \<open>throw\<close> stays visible.
\<close>

definition Digraph_empty :: "('v, 'e) Digraph" where
  "Digraph_empty = \<lparr>g_m = Map.empty, g_v = [], g_e = [], vertexC = 0, edgeC = 0\<rparr>"

subsection \<open>Private helpers\<close>

text \<open>\<open>VertexExist\<close>: the loop leaves in \<open>r\<close> the last position of \<open>vertex\<close> in \<open>v\<close>.\<close>

fun VertexExist_scan :: "int \<Rightarrow> int list \<Rightarrow> int \<Rightarrow> int \<Rightarrow> int" where
  "VertexExist_scan vertex [] i r = r"
| "VertexExist_scan vertex (x # xs) i r =
     VertexExist_scan vertex xs (i + 1) (if x = vertex then i else r)"

definition VertexExist :: "int \<Rightarrow> ('v, 'e) Digraph \<Rightarrow> error + unit" where
  "VertexExist vertex g =
     (if VertexExist_scan vertex (g_v g) 0 (- 1) = - 1 then Inl (NoSuchVertex vertex)
      else Inr ())"

definition findVertex :: "int \<Rightarrow> ('v, 'e) Digraph \<Rightarrow> error + ('v, 'e) DigraphVertex" where
  "findVertex vertex g =
     (case g_m g vertex of None \<Rightarrow> Inl (NoSuchVertex vertex) | Some dv \<Rightarrow> Inr dv)"

definition findVertexNotExist :: "int \<Rightarrow> ('v, 'e) Digraph \<Rightarrow> error + unit" where
  "findVertexNotExist vertex g =
     (case g_m g vertex of None \<Rightarrow> Inr () | Some dv \<Rightarrow> Inl (VertexAlreadyExists vertex))"

text \<open>\<open>indexOf\<close>: the first position of \<open>vertex\<close>, or \<open>-1\<close>.\<close>

fun indexOf_from :: "int \<Rightarrow> int list \<Rightarrow> int \<Rightarrow> int" where
  "indexOf_from vertex [] i = - 1"
| "indexOf_from vertex (x # xs) i = (if x = vertex then i else indexOf_from vertex xs (i + 1))"

definition indexOf :: "int \<Rightarrow> int list \<Rightarrow> int" where
  "indexOf vertex vertices = indexOf_from vertex vertices 0"

subsection \<open>Queries\<close>

definition vertices :: "('v, 'e) Digraph \<Rightarrow> int list" where
  "vertices g = g_v g"

definition edges_all :: "('v, 'e) Digraph \<Rightarrow> (int \<times> int) list" where
  "edges_all g = g_e g"

definition edges_of :: "int \<Rightarrow> ('v, 'e) Digraph \<Rightarrow> error + (int \<times> int) list" where
  "edges_of vertex g =
     (case VertexExist vertex g of Inl err \<Rightarrow> Inl err
      | Inr u \<Rightarrow>
          (case g_m g vertex of None \<Rightarrow> Inl StdOutOfRange
           | Some dv \<Rightarrow> Inr (map (\<lambda>it. (fromVertex it, toVertex it)) (edges dv))))"

definition vertexInfo :: "int \<Rightarrow> ('v, 'e) Digraph \<Rightarrow> error + 'v" where
  "vertexInfo vertex g =
     (case VertexExist vertex g of Inl err \<Rightarrow> Inl err
      | Inr u \<Rightarrow> (case g_m g vertex of None \<Rightarrow> Inl StdOutOfRange | Some dv \<Rightarrow> Inr (vinfo dv)))"

fun edgeInfo_scan :: "int \<Rightarrow> 'e DigraphEdge list \<Rightarrow> error + 'e" where
  "edgeInfo_scan toV [] = Inl NoSuchEdge"
| "edgeInfo_scan toV (it # its) =
     (if toVertex it = toV then Inr (einfo it) else edgeInfo_scan toV its)"

definition edgeInfo :: "int \<Rightarrow> int \<Rightarrow> ('v, 'e) Digraph \<Rightarrow> error + 'e" where
  "edgeInfo fromV toV g =
     (case VertexExist fromV g of Inl err \<Rightarrow> Inl err
      | Inr u \<Rightarrow>
          (case VertexExist toV g of Inl err \<Rightarrow> Inl err
           | Inr u' \<Rightarrow>
               (case g_m g fromV of None \<Rightarrow> Inl StdOutOfRange
                | Some dv \<Rightarrow> edgeInfo_scan toV (edges dv))))"

definition vertexCount :: "('v, 'e) Digraph \<Rightarrow> int" where
  "vertexCount g = vertexC g"

definition edgeCount :: "('v, 'e) Digraph \<Rightarrow> int" where
  "edgeCount g = edgeC g"

definition edgeCount_of :: "int \<Rightarrow> ('v, 'e) Digraph \<Rightarrow> error + int" where
  "edgeCount_of vertex g =
     (case VertexExist vertex g of Inl err \<Rightarrow> Inl err
      | Inr u \<Rightarrow>
          (case g_m g vertex of None \<Rightarrow> Inl StdOutOfRange
           | Some dv \<Rightarrow> Inr (int (length (edges dv)))))"

subsection \<open>Mutations\<close>

definition addVertex ::
  "int \<Rightarrow> 'v \<Rightarrow> ('v, 'e) Digraph \<Rightarrow> error option \<times> ('v, 'e) Digraph" where
  "addVertex vertex info g =
     (case findVertexNotExist vertex g of Inl err \<Rightarrow> (Some err, g)
      | Inr u \<Rightarrow>
          (None, g\<lparr>vertexC := vertexC g + 1,
                   g_v := g_v g @ [vertex],
                   g_m := (g_m g)(vertex \<mapsto> \<lparr>vinfo = info, edges = []\<rparr>)\<rparr>))"

definition addEdge ::
  "int \<Rightarrow> int \<Rightarrow> 'e \<Rightarrow> ('v, 'e) Digraph \<Rightarrow> error option \<times> ('v, 'e) Digraph" where
  "addEdge fromV toV info g =
     (case findVertex fromV g of Inl err \<Rightarrow> (Some err, g)
      | Inr i \<Rightarrow>
          (case findVertex toV g of Inl err \<Rightarrow> (Some err, g)
           | Inr j \<Rightarrow>
               if list_ex (\<lambda>it. toVertex it = toV) (edges i) then (Some EdgeAlreadyExists, g)
               else (None, g\<lparr>edgeC := edgeC g + 1,
                             g_e := g_e g @ [(fromV, toV)],
                             g_m := (g_m g)(fromV \<mapsto>
                               i\<lparr>edges := edges i @
                                 [\<lparr>fromVertex = fromV, toVertex = toV, einfo = info\<rparr>]\<rparr>)\<rparr>)))"

text \<open>
  The two loops that \<open>removeVertex\<close>, the copy constructor and the copy assignment run
  over a saved vertex list and a saved map: first every vertex is added again, then every
  kept edge. \<open>keep\<close> is the test of the inner loop body: \<open>removeVertex\<close> keeps the edges
  that do not touch the removed vertex, the copy operations keep every edge.
\<close>

fun addVertices_loop ::
  "(int \<rightharpoonup> ('v, 'e) DigraphVertex) \<Rightarrow> int list \<Rightarrow> ('v, 'e) Digraph \<Rightarrow>
     error option \<times> ('v, 'e) Digraph" where
  "addVertices_loop m0 [] g = (None, g)"
| "addVertices_loop m0 (n # ns) g =
     (case m0 n of None \<Rightarrow> (Some StdOutOfRange, g)
      | Some dv \<Rightarrow>
          (case addVertex n (vinfo dv) g of
             (Some err, g') \<Rightarrow> (Some err, g')
           | (None, g') \<Rightarrow> addVertices_loop m0 ns g'))"

fun addEdges_inner ::
  "('e DigraphEdge \<Rightarrow> bool) \<Rightarrow> 'e DigraphEdge list \<Rightarrow> ('v, 'e) Digraph \<Rightarrow>
     error option \<times> ('v, 'e) Digraph" where
  "addEdges_inner keep [] g = (None, g)"
| "addEdges_inner keep (edge # rest) g =
     (if keep edge then
        (case addEdge (fromVertex edge) (toVertex edge) (einfo edge) g of
           (Some err, g') \<Rightarrow> (Some err, g')
         | (None, g') \<Rightarrow> addEdges_inner keep rest g')
      else addEdges_inner keep rest g)"

fun addEdges_loop ::
  "('e DigraphEdge \<Rightarrow> bool) \<Rightarrow> (int \<rightharpoonup> ('v, 'e) DigraphVertex) \<Rightarrow> int list \<Rightarrow>
     ('v, 'e) Digraph \<Rightarrow> error option \<times> ('v, 'e) Digraph" where
  "addEdges_loop keep m0 [] g = (None, g)"
| "addEdges_loop keep m0 (n # ns) g =
     (case m0 n of None \<Rightarrow> (Some StdOutOfRange, g)
      | Some dv \<Rightarrow>
          (case addEdges_inner keep (edges dv) g of
             (Some err, g') \<Rightarrow> (Some err, g')
           | (None, g') \<Rightarrow> addEdges_loop keep m0 ns g'))"

definition removeVertex ::
  "int \<Rightarrow> ('v, 'e) Digraph \<Rightarrow> error option \<times> ('v, 'e) Digraph" where
  "removeVertex vertex g =
     (let v0 = filter (\<lambda>ve. ve \<noteq> vertex) (g_v g);
          m0 = g_m g;
          g0 = g\<lparr>vertexC := 0, edgeC := 0, g_m := Map.empty, g_v := [], g_e := []\<rparr>
      in case addVertices_loop m0 v0 g0 of
           (Some err, g1) \<Rightarrow> (Some err, g1)
         | (None, g1) \<Rightarrow>
             addEdges_loop (\<lambda>edge. fromVertex edge \<noteq> vertex \<and> toVertex edge \<noteq> vertex)
               m0 v0 g1)"

text \<open>
  \<open>removeEdge\<close>: \<open>std::find\<close> returns \<open>e.end()\<close> when the pair is missing, and erasing
  at \<open>end()\<close> is undefined: position \<open>e.size()\<close>.
\<close>

definition removeEdge ::
  "int \<Rightarrow> int \<Rightarrow> ('v, 'e) Digraph \<Rightarrow> error option \<times> ('v, 'e) Digraph" where
  "removeEdge fromV toV g =
     (case edgeInfo fromV toV g of Inl err \<Rightarrow> (Some err, g)
      | Inr info \<Rightarrow>
          (let g1 = g\<lparr>edgeC := edgeC g - 1\<rparr> in
           case g_m g1 fromV of None \<Rightarrow> (Some StdOutOfRange, g1)
           | Some dv \<Rightarrow>
               (let edges0 = map (\<lambda>i. \<lparr>fromVertex = fromVertex i, toVertex = toVertex i,
                                        einfo = einfo i\<rparr>)
                                 (filter (\<lambda>i. toVertex i \<noteq> toV) (edges dv));
                    g2 = g1\<lparr>g_m := (g_m g1)(fromV \<mapsto> dv\<lparr>edges := edges0\<rparr>)\<rparr>
                in if (fromV, toV) \<in> set (g_e g2)
                   then (None, g2\<lparr>g_e := remove1 (fromV, toV) (g_e g2)\<rparr>)
                   else (Some (OutOfBounds (int (length (g_e g2)))), g2))))"

subsection \<open>Copying\<close>

text \<open>
  The copy constructor starts from the empty members and runs the two loops over the
  members of \<open>d\<close>. The copy assignment first empties the members of \<open>this\<close> and then
  does the same, unless \<open>this\<close> and \<open>d\<close> are the same object; \<open>same\<close> is the outcome of
  the test \<open>this == &d\<close>.
\<close>

definition Digraph_copy :: "('v, 'e) Digraph \<Rightarrow> error option \<times> ('v, 'e) Digraph" where
  "Digraph_copy d =
     (case addVertices_loop (g_m d) (g_v d) Digraph_empty of
        (Some err, g1) \<Rightarrow> (Some err, g1)
      | (None, g1) \<Rightarrow> addEdges_loop (\<lambda>edge. True) (g_m d) (g_v d) g1)"

definition Digraph_assign ::
  "bool \<Rightarrow> ('v, 'e) Digraph \<Rightarrow> ('v, 'e) Digraph \<Rightarrow> error option \<times> ('v, 'e) Digraph" where
  "Digraph_assign same d g =
     (if \<not> same then
        (let g0 = g\<lparr>vertexC := 0, edgeC := 0, g_m := Map.empty, g_v := [], g_e := []\<rparr>
         in case addVertices_loop (g_m d) (g_v d) g0 of
              (Some err, g1) \<Rightarrow> (Some err, g1)
            | (None, g1) \<Rightarrow> addEdges_loop (\<lambda>edge. True) (g_m d) (g_v d) g1)
      else (None, g))"

text \<open>
  The move constructor gives \<open>this\<close> the five members of \<open>d\<close>. \<open>std::move\<close> of an \<open>int\<close>
  is a copy, so \<open>d\<close> keeps its two counts; the three containers are moved out of \<open>d\<close>,
  and the library leaves a container that was moved from empty. The result is the pair
  of what \<open>this\<close> holds and what is left in \<open>d\<close>. The move assignment empties the
  containers of \<open>this\<close> first and then does the same, unless \<open>this\<close> and \<open>d\<close> are the same
  object.
\<close>

definition Digraph_move :: "('v, 'e) Digraph \<Rightarrow> ('v, 'e) Digraph \<times> ('v, 'e) Digraph" where
  "Digraph_move d =
     (\<lparr>g_m = g_m d, g_v = g_v d, g_e = g_e d, vertexC = vertexC d, edgeC = edgeC d\<rparr>,
      d\<lparr>g_v := [], g_e := [], g_m := Map.empty\<rparr>)"

definition Digraph_move_assign ::
  "bool \<Rightarrow> ('v, 'e) Digraph \<Rightarrow> ('v, 'e) Digraph \<Rightarrow> ('v, 'e) Digraph \<times> ('v, 'e) Digraph" where
  "Digraph_move_assign same d g =
     (if \<not> same then
        (let g0 = g\<lparr>g_m := Map.empty, g_v := [], g_e := []\<rparr>
         in (g0\<lparr>vertexC := vertexC d, edgeC := edgeC d, g_v := g_v d, g_e := g_e d, g_m := g_m d\<rparr>,
             d\<lparr>g_v := [], g_e := [], g_m := Map.empty\<rparr>))
      else (g, d))"

subsection \<open>Objects in a store\<close>

text \<open>
  Two graph objects are two sets of members. A store gives every address the members of
  the object that lives there; a member function reads and writes the members of the
  object it is called on.
\<close>

type_synonym ('v, 'e) store = "nat \<Rightarrow> ('v, 'e) Digraph"

datatype ('v, 'e) mutation =
    AddVertex int 'v
  | AddEdge int int 'e
  | RemoveVertex int
  | RemoveEdge int int

fun mutate :: "('v, 'e) mutation \<Rightarrow> ('v, 'e) Digraph \<Rightarrow> error option \<times> ('v, 'e) Digraph" where
  "mutate (AddVertex vertex info) g = addVertex vertex info g"
| "mutate (AddEdge fromV toV info) g = addEdge fromV toV info g"
| "mutate (RemoveVertex vertex) g = removeVertex vertex g"
| "mutate (RemoveEdge fromV toV) g = removeEdge fromV toV g"

definition call ::
  "nat \<Rightarrow> ('v, 'e) mutation \<Rightarrow> ('v, 'e) store \<Rightarrow> error option \<times> ('v, 'e) store" where
  "call this c s = (case mutate c (s this) of (r, g') \<Rightarrow> (r, s(this := g')))"

text \<open>
  The copy operations take their argument by reference: the loops run on the object at
  \<open>this\<close> and read the members of the object at \<open>d\<close> as the store has them in that
  round. The vector a range-\<open>for\<close> runs over is the one found when the loop starts.
\<close>

fun copy_vertices ::
  "nat \<Rightarrow> nat \<Rightarrow> int list \<Rightarrow> ('v, 'e) store \<Rightarrow> error option \<times> ('v, 'e) store" where
  "copy_vertices this d [] s = (None, s)"
| "copy_vertices this d (n # ns) s =
     (case g_m (s d) n of None \<Rightarrow> (Some StdOutOfRange, s)
      | Some dv \<Rightarrow>
          (case call this (AddVertex n (vinfo dv)) s of
             (Some err, s') \<Rightarrow> (Some err, s')
           | (None, s') \<Rightarrow> copy_vertices this d ns s'))"

fun copy_edges_inner ::
  "nat \<Rightarrow> 'e DigraphEdge list \<Rightarrow> ('v, 'e) store \<Rightarrow> error option \<times> ('v, 'e) store" where
  "copy_edges_inner this [] s = (None, s)"
| "copy_edges_inner this (edge # rest) s =
     (case call this (AddEdge (fromVertex edge) (toVertex edge) (einfo edge)) s of
        (Some err, s') \<Rightarrow> (Some err, s')
      | (None, s') \<Rightarrow> copy_edges_inner this rest s')"

fun copy_edges ::
  "nat \<Rightarrow> nat \<Rightarrow> int list \<Rightarrow> ('v, 'e) store \<Rightarrow> error option \<times> ('v, 'e) store" where
  "copy_edges this d [] s = (None, s)"
| "copy_edges this d (n # ns) s =
     (case g_m (s d) n of None \<Rightarrow> (Some StdOutOfRange, s)
      | Some dv \<Rightarrow>
          (case copy_edges_inner this (edges dv) s of
             (Some err, s') \<Rightarrow> (Some err, s')
           | (None, s') \<Rightarrow> copy_edges this d ns s'))"

definition copy_construct ::
  "nat \<Rightarrow> nat \<Rightarrow> ('v, 'e) store \<Rightarrow> error option \<times> ('v, 'e) store" where
  "copy_construct this d s =
     (let s0 = s(this := Digraph_empty) in
      case copy_vertices this d (g_v (s0 d)) s0 of
        (Some err, s1) \<Rightarrow> (Some err, s1)
      | (None, s1) \<Rightarrow> copy_edges this d (g_v (s1 d)) s1)"

definition copy_assign ::
  "nat \<Rightarrow> nat \<Rightarrow> ('v, 'e) store \<Rightarrow> error option \<times> ('v, 'e) store" where
  "copy_assign this d s =
     (if this \<noteq> d then
        (let s0 = s(this := (s this)\<lparr>vertexC := 0, edgeC := 0, g_m := Map.empty,
                                       g_v := [], g_e := []\<rparr>) in
         case copy_vertices this d (g_v (s0 d)) s0 of
           (Some err, s1) \<Rightarrow> (Some err, s1)
         | (None, s1) \<Rightarrow> copy_edges this d (g_v (s1 d)) s1)
      else (None, s))"

text \<open>A sequence of calls on one object, the caller catching whatever is thrown.\<close>

fun calls :: "nat \<Rightarrow> ('v, 'e) mutation list \<Rightarrow> ('v, 'e) store \<Rightarrow> ('v, 'e) store" where
  "calls this [] s = s"
| "calls this (c # cs) s = calls this cs (snd (call this c s))"

subsection \<open>Facts about the helpers\<close>

lemma VertexExist_scan_eq:
  "0 \<le> i \<Longrightarrow> VertexExist_scan vertex xs i r = - 1 \<longleftrightarrow> r = - 1 \<and> vertex \<notin> set xs"
  by (induction xs arbitrary: i r) auto

lemma VertexExist_iff:
  "VertexExist vertex g = (if vertex \<in> set (g_v g) then Inr () else Inl (NoSuchVertex vertex))"
  by (simp add: VertexExist_def VertexExist_scan_eq)

lemma indexOf_from_absent: "vertex \<notin> set xs \<Longrightarrow> indexOf_from vertex xs i = - 1"
  by (induction xs arbitrary: i) auto

lemma indexOf_from_present:
  "vertex \<in> set xs \<Longrightarrow>
     i \<le> indexOf_from vertex xs i \<and> indexOf_from vertex xs i < i + int (length xs) \<and>
     xs ! nat (indexOf_from vertex xs i - i) = vertex"
proof (induction xs arbitrary: i)
  case Nil
  then show ?case by simp
next
  case (Cons x xs)
  show ?case
  proof (cases "x = vertex")
    case True
    then show ?thesis by simp
  next
    case False
    with Cons.prems have "vertex \<in> set xs" by simp
    from Cons.IH [OF this, of "i + 1"]
    have b: "i + 1 \<le> indexOf_from vertex xs (i + 1)"
        "indexOf_from vertex xs (i + 1) < i + 1 + int (length xs)"
        "xs ! nat (indexOf_from vertex xs (i + 1) - (i + 1)) = vertex"
      by simp_all
    have "nat (indexOf_from vertex xs (i + 1) - i) =
            Suc (nat (indexOf_from vertex xs (i + 1) - (i + 1)))"
      using b(1) by linarith
    with b False show ?thesis by simp
  qed
qed

lemma indexOf_absent: "vertex \<notin> set xs \<Longrightarrow> indexOf vertex xs = - 1"
  by (simp add: indexOf_def indexOf_from_absent)

lemma indexOf_present:
  assumes "vertex \<in> set xs"
  shows "0 \<le> indexOf vertex xs" and "indexOf vertex xs < int (length xs)"
    and "xs ! nat (indexOf vertex xs) = vertex"
  using indexOf_from_present [OF assms, of 0] by (simp_all add: indexOf_def)

lemma edgeInfo_scan_absent:
  "toV \<notin> toVertex ` set es \<Longrightarrow> edgeInfo_scan toV es = Inl NoSuchEdge"
  by (induction es) auto

lemma edgeInfo_scan_present:
  "it \<in> set es \<Longrightarrow> distinct (map toVertex es) \<Longrightarrow>
     edgeInfo_scan (toVertex it) es = Inr (einfo it)"
  by (induction es) (auto simp: image_iff)

lemma edgeInfo_scan_append:
  "edgeInfo_scan toV (es @ es') =
     (case edgeInfo_scan toV es of Inl err \<Rightarrow> edgeInfo_scan toV es' | Inr x \<Rightarrow> Inr x)"
  by (induction es) auto

section \<open>Strong connectivity\<close>

text \<open>\<open>vertices.erase(vertices.begin() + index)\<close> for a position inside the vector.\<close>

definition erase_at :: "nat \<Rightarrow> 'a list \<Rightarrow> 'a list" where
  "erase_at i xs = take i xs @ drop (Suc i) xs"

text \<open>
  \<open>DFTr\<close> searches \<open>vertex\<close> in the vector of the vertices not visited yet, erases it
  there and calls itself for every destination of an outgoing edge that is still in
  the vector. The search loops are the loop of \<open>indexOf\<close>. When \<open>vertex\<close> is not found
  the erased position is \<open>begin() - 1\<close>, outside the vector.
\<close>

function DFTr :: "('v, 'e) Digraph \<Rightarrow> int \<Rightarrow> int list \<Rightarrow> error + int list"
  and DFTr_edges :: "('v, 'e) Digraph \<Rightarrow> 'e DigraphEdge list \<Rightarrow> int list \<Rightarrow> error + int list"
  where
  "DFTr g vertex vs =
     (let index = indexOf vertex vs in
      if index = - 1 then Inl (OutOfBounds (- 1))
      else
        (case g_m g vertex of
           None \<Rightarrow> Inl StdOutOfRange
         | Some dv \<Rightarrow> DFTr_edges g (edges dv) (erase_at (nat index) vs)))"
| "DFTr_edges g [] vs = Inr vs"
| "DFTr_edges g (edge # rest) vs =
     (if indexOf (toVertex edge) vs \<noteq> - 1 then
        (case DFTr g (toVertex edge) vs of
           Inl err \<Rightarrow> Inl err
         | Inr vs' \<Rightarrow> DFTr_edges g rest vs')
      else DFTr_edges g rest vs)"
  by pat_completeness auto

lemma indexOf_eq_minus_one: "indexOf x xs = - 1 \<longleftrightarrow> x \<notin> set xs"
  using indexOf_present(1) [of x xs] indexOf_absent [of x xs] by auto

lemma erase_at_indexOf_from:
  "x \<in> set xs \<Longrightarrow> erase_at (nat (indexOf_from x xs i - i)) xs = remove1 x xs"
proof (induction xs arbitrary: i)
  case Nil
  then show ?case by simp
next
  case (Cons y ys)
  show ?case
  proof (cases "y = x")
    case True
    then show ?thesis by (simp add: erase_at_def)
  next
    case False
    with Cons.prems have x: "x \<in> set ys" by simp
    from indexOf_from_present [OF x, of "i + 1"]
    have "nat (indexOf_from x ys (i + 1) - i) = Suc (nat (indexOf_from x ys (i + 1) - (i + 1)))"
      by linarith
    with False Cons.IH [OF x, of "i + 1"] show ?thesis by (simp add: erase_at_def)
  qed
qed

lemma erase_at_indexOf: "x \<in> set xs \<Longrightarrow> erase_at (nat (indexOf x xs)) xs = remove1 x xs"
  using erase_at_indexOf_from [of x xs 0] by (simp add: indexOf_def)

lemma length_erase_at_indexOf:
  "x \<in> set xs \<Longrightarrow> length (erase_at (nat (indexOf x xs)) xs) < length xs"
  using length_pos_if_in_set [of x xs] by (simp add: erase_at_indexOf length_remove1)

lemma DFTr_shrinks:
  "DFTr_DFTr_edges_dom (Inl (g, vertex, vs)) \<Longrightarrow> DFTr g vertex vs = Inr vs' \<Longrightarrow>
     length vs' < length vs"
  "DFTr_DFTr_edges_dom (Inr (g, es, vs)) \<Longrightarrow> DFTr_edges g es vs = Inr vs'' \<Longrightarrow>
     length vs'' \<le> length vs"
proof (induction g vertex vs and g es vs arbitrary: vs' and vs'' rule: DFTr_DFTr_edges.pinduct)
  case (1 g vertex vs)
  from "1.prems" "1.hyps" obtain dv where x: "vertex \<in> set vs" and dv: "g_m g vertex = Some dv"
    and run: "DFTr_edges g (edges dv) (erase_at (nat (indexOf vertex vs)) vs) = Inr vs'"
    by (auto simp: DFTr.psimps Let_def indexOf_eq_minus_one split: if_splits option.splits)
  from "1.IH" [OF refl _ dv run] x have "length vs' \<le> length (erase_at (nat (indexOf vertex vs)) vs)"
    by (simp add: indexOf_eq_minus_one)
  also have "\<dots> < length vs"
    using x by (rule length_erase_at_indexOf)
  finally show ?case .
next
  case (2 g vs)
  then show ?case by (simp add: DFTr_edges.psimps)
next
  case (3 g edge rest vs)
  show ?case
  proof (cases "indexOf (toVertex edge) vs = - 1")
    case True
    then have skip: "\<not> indexOf (toVertex edge) vs \<noteq> - 1" by simp
    from True "3.prems" "3.hyps" have "DFTr_edges g rest vs = Inr vs''"
      by (simp add: DFTr_edges.psimps)
    with "3.IH"(3) [OF skip] show ?thesis .
  next
    case False
    with "3.prems" "3.hyps" obtain vs1 where first: "DFTr g (toVertex edge) vs = Inr vs1"
      and rest: "DFTr_edges g rest vs1 = Inr vs''"
      by (auto simp: DFTr_edges.psimps split: sum.splits)
    from "3.IH"(1) [OF False first] have "length vs1 < length vs" .
    moreover from "3.IH"(2) [OF False first rest] have "length vs'' \<le> length vs1" .
    ultimately show ?thesis by simp
  qed
qed

termination DFTr
proof (relation "measures
    [\<lambda>x. case x of Inl (g, vertex, vs) \<Rightarrow> length vs | Inr (g, es, vs) \<Rightarrow> length vs,
     \<lambda>x. case x of Inl (g, vertex, vs) \<Rightarrow> 0 | Inr (g, es, vs) \<Rightarrow> Suc (length es)]")
qed (auto simp: indexOf_eq_minus_one length_erase_at_indexOf dest: DFTr_shrinks(1))

text \<open>The loop of \<open>isStronglyConnected\<close>: one traversal from every vertex of \<open>v\<close>.\<close>

fun isStronglyConnected_loop :: "('v, 'e) Digraph \<Rightarrow> int list \<Rightarrow> error + bool" where
  "isStronglyConnected_loop g [] = Inr True"
| "isStronglyConnected_loop g (vertex # rest) =
     (case DFTr g vertex (g_v g) of
        Inl err \<Rightarrow> Inl err
      | Inr vs \<Rightarrow> if length vs \<noteq> 0 then Inr False else isStronglyConnected_loop g rest)"

definition isStronglyConnected :: "('v, 'e) Digraph \<Rightarrow> error + bool" where
  "isStronglyConnected g = isStronglyConnected_loop g (g_v g)"

section \<open>Shortest paths\<close>

text \<open>
  A \<open>double\<close> is a binary64 number of IEEE 754. A finite one is modelled as the real
  number it stands for, and the two infinities as \<open>2^1024\<close> and \<open>- 2^1024\<close>, so that the
  order of the doubles is the order of the reals. \<open>NaN\<close> is left out: the weight
  function is taken to return finite numbers, and then the loop never computes one.
  \<open>std::numeric_limits<double>::max()\<close> is the finite number \<open>(2^53 - 1) * 2^971\<close>.
\<close>

definition DBL_MAX :: real where
  "DBL_MAX = (2 ^ 53 - 1) * 2 ^ 971"

definition dbl_inf :: real where
  "dbl_inf = 2 ^ 1024"

text \<open>
  The exponent of a number in the format: the greatest \<open>e\<close> between -1021 and 1023 with
  \<open>2^e \<le> \<bar>x\<bar>\<close>, and -1022 for the numbers below \<open>2^-1021\<close>, the least normal binade and
  the subnormal numbers. The doubles with that exponent are the multiples of
  \<open>2^(e - 52)\<close>.
\<close>

fun exponent_from :: "nat \<Rightarrow> real \<Rightarrow> int" where
  "exponent_from 0 x = - 1022"
| "exponent_from (Suc k) x =
     (if 2 powi (int k - 1021) \<le> \<bar>x\<bar> then int k - 1021 else exponent_from k x)"

definition dbl_exponent :: "real \<Rightarrow> int" where
  "dbl_exponent x = exponent_from 2045 x"

text \<open>The nearest integer, the even one of the two when both are as near.\<close>

definition round_even :: "real \<Rightarrow> int" where
  "round_even r =
     (if r - of_int \<lfloor>r\<rfloor> < 1 / 2 then \<lfloor>r\<rfloor>
      else if 1 / 2 < r - of_int \<lfloor>r\<rfloor> then \<lfloor>r\<rfloor> + 1
      else if even \<lfloor>r\<rfloor> then \<lfloor>r\<rfloor> else \<lfloor>r\<rfloor> + 1)"

text \<open>
  Rounding to the nearest double, the mode a program runs in unless it changes it. What
  rounds beyond \<open>DBL_MAX\<close> becomes an infinity.
\<close>

definition dbl_round :: "real \<Rightarrow> real" where
  "dbl_round x =
     (let q = 2 powi (dbl_exponent x - 52); r = q * of_int (round_even (x / q))
      in if DBL_MAX < \<bar>r\<bar> then sgn x * dbl_inf else r)"

text \<open>
  \<open>x + y\<close> on doubles, for a finite \<open>y\<close>: the exact sum, rounded; an infinity stays what
  it is. This is the sum of a program that evaluates \<open>double\<close> expressions in \<open>double\<close>.
\<close>

definition dbl_add :: "real \<Rightarrow> real \<Rightarrow> real" where
  "dbl_add x y = (if \<bar>x\<bar> = dbl_inf then x else dbl_round (x + y))"

text \<open>\<open>operator[]\<close> of a vector is defined for the positions \<open>0 .. size() - 1\<close>.\<close>

definition in_bounds :: "int \<Rightarrow> 'a list \<Rightarrow> bool" where
  "in_bounds i xs \<longleftrightarrow> 0 \<le> i \<and> i < int (length xs)"

text \<open>
  The priority queue holds pairs (distance, vertex) and, with \<open>std::greater\<close>, hands out
  the least pair in the lexicographic order first. It is modelled as the list of its
  entries; \<open>top\<close> is the least entry and \<open>pop\<close> removes one copy of it.
\<close>

definition pair_less :: "real \<times> int \<Rightarrow> real \<times> int \<Rightarrow> bool" where
  "pair_less p q \<longleftrightarrow> fst p < fst q \<or> (fst p = fst q \<and> snd p < snd q)"

fun pq_min :: "real \<times> int \<Rightarrow> (real \<times> int) list \<Rightarrow> real \<times> int" where
  "pq_min best [] = best"
| "pq_min best (x # xs) = pq_min (if pair_less x best then x else best) xs"

definition pq_top :: "(real \<times> int) list \<Rightarrow> real \<times> int" where
  "pq_top pq = pq_min (hd pq) (tl pq)"

definition pq_pop :: "(real \<times> int) list \<Rightarrow> (real \<times> int) list" where
  "pq_pop pq = remove1 (pq_top pq) pq"

definition pq_push :: "real \<times> int \<Rightarrow> (real \<times> int) list \<Rightarrow> (real \<times> int) list" where
  "pq_push x pq = pq @ [x]"

text \<open>
  The body of the \<open>for\<close> loop over the outgoing edges of \<open>vertex\<close>. \<open>edgeInfo\<close> is called
  for the condition and again for the assignment; it has no effect, so the model calls
  it once. The position \<open>indexW\<close> is looked at before \<open>edgeInfo\<close> is called.
\<close>

fun relax_edges ::
  "('v, 'e) Digraph \<Rightarrow> ('e \<Rightarrow> real) \<Rightarrow> int list \<Rightarrow> int \<Rightarrow> int \<Rightarrow> 'e DigraphEdge list \<Rightarrow>
     real list \<times> (int \<rightharpoonup> int) \<times> (real \<times> int) list \<Rightarrow>
     error + real list \<times> (int \<rightharpoonup> int) \<times> (real \<times> int) list" where
  "relax_edges g edgeWeightFunc vs vertex index [] st = Inr st"
| "relax_edges g edgeWeightFunc vs vertex index (edge # rest) (Dv, Pv, pq) =
     (let w = toVertex edge; indexW = indexOf w vs in
      if in_bounds indexW Dv then
        if in_bounds index Dv then
          (case edgeInfo vertex w g of
             Inl err \<Rightarrow> Inl err
           | Inr info \<Rightarrow>
               if Dv ! nat indexW > dbl_add (Dv ! nat index) (edgeWeightFunc info) then
                 relax_edges g edgeWeightFunc vs vertex index rest
                   (Dv[nat indexW := dbl_add (Dv ! nat index) (edgeWeightFunc info)],
                    Pv(w \<mapsto> vertex),
                    pq_push (dbl_add (Dv ! nat index) (edgeWeightFunc info), w) pq)
               else relax_edges g edgeWeightFunc vs vertex index rest (Dv, Pv, pq))
        else Inl (OutOfBounds index)
      else Inl (OutOfBounds indexW))"

lemma pq_min_in: "pq_min best xs \<in> set (best # xs)"
  by (induction xs arbitrary: best) (auto split: if_splits)

lemma pq_top_in: "pq \<noteq> [] \<Longrightarrow> pq_top pq \<in> set pq"
  using pq_min_in [of "hd pq" "tl pq"] by (cases pq) (auto simp: pq_top_def)

lemma length_pq_pop: "pq \<noteq> [] \<Longrightarrow> length (pq_pop pq) < length pq"
  using pq_top_in [of pq] by (cases pq) (simp_all add: pq_pop_def length_remove1 del: remove1.simps)

definition unvisited :: "bool list \<Rightarrow> nat" where
  "unvisited Kv = length (filter (\<lambda>b. \<not> b) Kv)"

lemma unvisited_mark:
  "i < length Kv \<Longrightarrow> \<not> Kv ! i \<Longrightarrow> unvisited (Kv[i := True]) < unvisited Kv"
proof (induction Kv arbitrary: i)
  case Nil
  then show ?case by simp
next
  case (Cons b Kv)
  then show ?case by (cases i) (auto simp: unvisited_def)
qed

text \<open>
  The \<open>while\<close> loop. \<open>vs\<close> is the local vector \<open>vertices\<close>, the copy of \<open>v\<close> that
  \<open>indexOf\<close> searches.
\<close>

function sp_loop ::
  "('v, 'e) Digraph \<Rightarrow> ('e \<Rightarrow> real) \<Rightarrow> int list \<Rightarrow>
     bool list \<times> real list \<times> (int \<rightharpoonup> int) \<times> (real \<times> int) list \<Rightarrow> error + (int \<rightharpoonup> int)" where
  "sp_loop g edgeWeightFunc vs (Kv, Dv, Pv, pq) =
     (if pq = [] then Inr Pv
      else
        (let vertex = snd (pq_top pq); pq1 = pq_pop pq; index = indexOf vertex vs in
         if in_bounds index Kv then
           if Kv ! nat index = False then
             (case g_m g vertex of
                None \<Rightarrow> Inl StdOutOfRange
              | Some dv \<Rightarrow>
                  (case relax_edges g edgeWeightFunc vs vertex index (edges dv) (Dv, Pv, pq1) of
                     Inl err \<Rightarrow> Inl err
                   | Inr (Dv', Pv', pq') \<Rightarrow>
                       sp_loop g edgeWeightFunc vs (Kv[nat index := True], Dv', Pv', pq')))
           else sp_loop g edgeWeightFunc vs (Kv, Dv, Pv, pq1)
         else Inl (OutOfBounds index)))"
  by pat_completeness auto
termination
proof (relation "measures [\<lambda>(g, f, vs, Kv, Dv, Pv, pq). unvisited Kv,
                           \<lambda>(g, f, vs, Kv, Dv, Pv, pq). length pq]")
qed (auto simp: in_bounds_def unvisited_mark length_pq_pop)

definition findShortestPaths ::
  "int \<Rightarrow> ('e \<Rightarrow> real) \<Rightarrow> ('v, 'e) Digraph \<Rightarrow> error + (int \<rightharpoonup> int)" where
  "findShortestPaths startVertex edgeWeightFunc g =
     (let Kv = replicate (length (g_v g)) False;
          Pv = fold (\<lambda>vertex P. P(vertex \<mapsto> vertex)) (g_v g) Map.empty;
          Dv = replicate (length (g_v g)) DBL_MAX;
          vs = g_v g;
          startIndex = indexOf startVertex vs
      in if in_bounds startIndex Dv
         then sp_loop g edgeWeightFunc vs (Kv, Dv[nat startIndex := 0], Pv, pq_push (0, startVertex) [])
         else Inl (OutOfBounds startIndex))"

declare sp_loop.simps [simp del]

section \<open>Structural invariants\<close>

definition out_of :: "(int \<rightharpoonup> ('v, 'e) DigraphVertex) \<Rightarrow> int \<Rightarrow> 'e DigraphEdge list" where
  "out_of m0 n = (case m0 n of None \<Rightarrow> [] | Some dv \<Rightarrow> edges dv)"

definition edge_pair :: "'e DigraphEdge \<Rightarrow> int \<times> int" where
  "edge_pair it = (fromVertex it, toVertex it)"

text \<open>All edge records of the graph: the outgoing lists of the vertices, in the order of \<open>v\<close>.\<close>

definition all_edges :: "('v, 'e) Digraph \<Rightarrow> 'e DigraphEdge list" where
  "all_edges g = concat (map (out_of (g_m g)) (g_v g))"

text \<open>
  The representation invariant of the five members: \<open>v\<close> lists the keys of \<open>m\<close> once each,
  an edge record is stored under its own source and points to a present vertex, an
  outgoing list holds a destination at most once, \<open>e\<close> is a rearrangement of the pairs of
  all stored edges, and the counters are the sizes of \<open>v\<close> and \<open>e\<close>.
\<close>

definition wf_Digraph :: "('v, 'e) Digraph \<Rightarrow> bool" where
  "wf_Digraph g \<longleftrightarrow>
     distinct (g_v g) \<and>
     dom (g_m g) = set (g_v g) \<and>
     (\<forall>n\<in>set (g_v g). \<forall>it\<in>set (out_of (g_m g) n).
        fromVertex it = n \<and> toVertex it \<in> set (g_v g)) \<and>
     (\<forall>n\<in>set (g_v g). distinct (map toVertex (out_of (g_m g) n))) \<and>
     mset (g_e g) = mset (map edge_pair (all_edges g)) \<and>
     vertexC g = int (length (g_v g)) \<and>
     edgeC g = int (length (g_e g))"

subsection \<open>Where the mutations throw\<close>

lemma addVertex_error:
  "addVertex vertex info g = (Some err, g') \<Longrightarrow> err = VertexAlreadyExists vertex \<and> g' = g"
  by (auto simp: addVertex_def findVertexNotExist_def split: option.splits)

lemma addEdge_error:
  "addEdge fromV toV info g = (Some err, g') \<Longrightarrow>
     err \<in> {NoSuchVertex fromV, NoSuchVertex toV, EdgeAlreadyExists} \<and> g' = g"
  by (auto simp: addEdge_def findVertex_def split: option.splits if_splits)

lemma edgeInfo_scan_error: "edgeInfo_scan toV es = Inl err \<Longrightarrow> err = NoSuchEdge"
  by (induction es) (auto split: if_splits)

lemma edgeInfo_error:
  "edgeInfo fromV toV g = Inl err \<Longrightarrow>
     err \<in> {NoSuchVertex fromV, NoSuchVertex toV, NoSuchEdge, StdOutOfRange}"
  by (auto simp: edgeInfo_def VertexExist_iff edgeInfo_scan_error
      split: if_splits option.splits)

lemma removeEdge_error:
  assumes "removeEdge fromV toV g = (Some err, g')" and "is_DigraphException err"
  shows "err \<in> {NoSuchVertex fromV, NoSuchVertex toV, NoSuchEdge} \<and> g' = g"
proof (cases "edgeInfo fromV toV g")
  case (Inl err0)
  with assms(1) have "err = err0" "g' = g" by (simp_all add: removeEdge_def)
  with edgeInfo_error [OF Inl] assms(2) show ?thesis by auto
next
  case (Inr info)
  with assms(1) have "err = StdOutOfRange \<or> (\<exists>i. err = OutOfBounds i)"
    by (auto simp: removeEdge_def Let_def split: option.splits if_splits)
  with assms(2) show ?thesis by auto
qed

subsection \<open>Facts about the invariant\<close>

lemma out_of_upd: "out_of (m0(k \<mapsto> dv)) = (out_of m0)(k := edges dv)"
  by (rule ext) (simp add: out_of_def)

lemma out_of_Some: "m0 n = Some dv \<Longrightarrow> out_of m0 n = edges dv"
  by (simp add: out_of_def)

lemma out_of_None: "m0 n = None \<Longrightarrow> out_of m0 n = []"
  by (simp add: out_of_def)

lemma edge_rebuild [simp]:
  "\<lparr>fromVertex = fromVertex i, toVertex = toVertex i, einfo = einfo i\<rparr> = i"
  by simp

lemma concat_map_upd_notin: "a \<notin> set xs \<Longrightarrow> concat (map (f(a := ys)) xs) = concat (map f xs)"
  by (induction xs) auto

lemma mset_concat_map_upd:
  "distinct xs \<Longrightarrow> a \<in> set xs \<Longrightarrow>
     mset (concat (map (f(a := ys)) xs)) + mset (f a) = mset (concat (map f xs)) + mset ys"
  by (induction xs) (auto simp: concat_map_upd_notin)

lemma wf_Digraph_empty: "wf_Digraph Digraph_empty"
  by (simp add: wf_Digraph_def Digraph_empty_def all_edges_def)

lemma wf_distinct: "wf_Digraph g \<Longrightarrow> distinct (g_v g)"
  and wf_dom: "wf_Digraph g \<Longrightarrow> dom (g_m g) = set (g_v g)"
  and wf_mset: "wf_Digraph g \<Longrightarrow> mset (g_e g) = mset (map edge_pair (all_edges g))"
  and wf_vertexC: "wf_Digraph g \<Longrightarrow> vertexC g = int (length (g_v g))"
  and wf_edgeC: "wf_Digraph g \<Longrightarrow> edgeC g = int (length (g_e g))"
  by (simp_all add: wf_Digraph_def)

lemma wf_edge:
  "wf_Digraph g \<Longrightarrow> n \<in> set (g_v g) \<Longrightarrow> it \<in> set (out_of (g_m g) n) \<Longrightarrow>
     fromVertex it = n \<and> toVertex it \<in> set (g_v g)"
  by (simp add: wf_Digraph_def)

lemma wf_out_distinct:
  "wf_Digraph g \<Longrightarrow> n \<in> set (g_v g) \<Longrightarrow> distinct (map toVertex (out_of (g_m g) n))"
  by (simp add: wf_Digraph_def)

lemma wf_lookup: "wf_Digraph g \<Longrightarrow> n \<in> set (g_v g) \<Longrightarrow> \<exists>dv. g_m g n = Some dv"
  using wf_dom [of g] by auto

lemma wf_lookup_None: "wf_Digraph g \<Longrightarrow> n \<notin> set (g_v g) \<Longrightarrow> g_m g n = None"
  using wf_dom [of g] by auto

subsection \<open>The successful mutations keep the invariant\<close>

lemma addVertex_success:
  "g_m g vertex = None \<Longrightarrow>
     addVertex vertex info g =
       (None, g\<lparr>vertexC := vertexC g + 1, g_v := g_v g @ [vertex],
                g_m := (g_m g)(vertex \<mapsto> \<lparr>vinfo = info, edges = []\<rparr>)\<rparr>)"
  by (simp add: addVertex_def findVertexNotExist_def)

lemma addVertex_failure:
  "g_m g vertex = Some dv \<Longrightarrow> addVertex vertex info g = (Some (VertexAlreadyExists vertex), g)"
  by (simp add: addVertex_def findVertexNotExist_def)

lemma wf_addVertex:
  assumes "wf_Digraph g"
  shows "wf_Digraph (snd (addVertex vertex info g))"
proof (cases "g_m g vertex")
  case (Some dv)
  with assms show ?thesis by (simp add: addVertex_failure)
next
  case None
  with wf_dom [OF assms] have notin: "vertex \<notin> set (g_v g)" by auto
  let ?g' = "g\<lparr>vertexC := vertexC g + 1, g_v := g_v g @ [vertex],
                g_m := (g_m g)(vertex \<mapsto> \<lparr>vinfo = info, edges = []\<rparr>)\<rparr>"
  have all: "all_edges ?g' = all_edges g"
    using notin by (simp add: all_edges_def out_of_upd concat_map_upd_notin)
  have "wf_Digraph ?g'"
    unfolding wf_Digraph_def all
    using assms notin
    by (auto simp: wf_Digraph_def out_of_upd)
  with None show ?thesis by (simp add: addVertex_success)
qed

lemma addEdge_success:
  "g_m g fromV = Some i \<Longrightarrow> g_m g toV = Some j \<Longrightarrow> toV \<notin> toVertex ` set (edges i) \<Longrightarrow>
     addEdge fromV toV info g =
       (None, g\<lparr>edgeC := edgeC g + 1, g_e := g_e g @ [(fromV, toV)],
                g_m := (g_m g)(fromV \<mapsto>
                  i\<lparr>edges := edges i @
                    [\<lparr>fromVertex = fromV, toVertex = toV, einfo = info\<rparr>]\<rparr>)\<rparr>)"
  by (auto simp: addEdge_def findVertex_def list_ex_iff)

lemma wf_addEdge:
  assumes "wf_Digraph g"
  shows "wf_Digraph (snd (addEdge fromV toV info g))"
proof (cases "fst (addEdge fromV toV info g)")
  case (Some err)
  then have "snd (addEdge fromV toV info g) = g"
    using addEdge_error [of fromV toV info g err] by (metis prod.collapse)
  with assms show ?thesis by simp
next
  case None
  then obtain i j where i: "g_m g fromV = Some i" and j: "g_m g toV = Some j"
    and fresh: "toV \<notin> toVertex ` set (edges i)"
    by (auto simp: addEdge_def findVertex_def list_ex_iff split: option.splits if_splits)
  let ?new = "\<lparr>fromVertex = fromV, toVertex = toV, einfo = info\<rparr>"
  let ?g' = "g\<lparr>edgeC := edgeC g + 1, g_e := g_e g @ [(fromV, toV)],
                g_m := (g_m g)(fromV \<mapsto> i\<lparr>edges := edges i @ [?new]\<rparr>)\<rparr>"
  from i j wf_dom [OF assms] have inv: "fromV \<in> set (g_v g)" "toV \<in> set (g_v g)" by auto
  have "mset (all_edges ?g') + mset (edges i) = mset (all_edges g) + mset (edges i @ [?new])"
    using mset_concat_map_upd [OF wf_distinct [OF assms] inv(1),
        of "out_of (g_m g)" "edges i @ [?new]"] i
    by (simp add: all_edges_def out_of_upd out_of_Some)
  then have all: "mset (all_edges ?g') = mset (all_edges g) + {#?new#}" by simp
  have "wf_Digraph ?g'"
    unfolding wf_Digraph_def
  proof (intro conjI)
    show "mset (g_e ?g') = mset (map edge_pair (all_edges ?g'))"
      using wf_mset [OF assms] arg_cong [OF all, of "image_mset edge_pair"]
      by (simp add: edge_pair_def)
    show "\<forall>n\<in>set (g_v ?g'). \<forall>it\<in>set (out_of (g_m ?g') n).
            fromVertex it = n \<and> toVertex it \<in> set (g_v ?g')"
      using wf_edge [OF assms] inv i by (auto simp: out_of_upd out_of_Some)
    show "\<forall>n\<in>set (g_v ?g'). distinct (map toVertex (out_of (g_m ?g') n))"
      using wf_out_distinct [OF assms] wf_out_distinct [OF assms inv(1)] inv i fresh
      by (auto simp: out_of_upd out_of_Some)
    show "dom (g_m ?g') = set (g_v ?g')"
      using wf_dom [OF assms] inv by auto
  qed (use assms in \<open>simp_all add: wf_Digraph_def\<close>)
  with i j fresh show ?thesis by (simp add: addEdge_success)
qed

lemma wf_set_e:
  assumes "wf_Digraph g"
  shows "set (g_e g) =
           {(n, toVertex it) | n it. n \<in> set (g_v g) \<and> it \<in> set (out_of (g_m g) n)}"
proof -
  have "set (g_e g) = set (map edge_pair (all_edges g))"
    using wf_mset [OF assms] by (metis set_mset_mset)
  also have "\<dots> = {(n, toVertex it) | n it. n \<in> set (g_v g) \<and> it \<in> set (out_of (g_m g) n)}"
    using wf_edge [OF assms] by (fastforce simp: all_edges_def edge_pair_def image_iff)
  finally show ?thesis .
qed

lemma wf_edge_listed:
  "wf_Digraph g \<Longrightarrow> g_m g n = Some dv \<Longrightarrow> it \<in> set (edges dv) \<Longrightarrow>
     (n, toVertex it) \<in> set (g_e g)"
  using wf_dom [of g] by (auto simp: wf_set_e out_of_Some)

lemma filter_eq_singleton:
  "distinct (map f xs) \<Longrightarrow> x \<in> set xs \<Longrightarrow> filter (\<lambda>y. f y = f x) xs = [x]"
proof (induction xs)
  case Nil
  then show ?case by simp
next
  case (Cons y ys)
  show ?case
  proof (cases "y = x")
    case True
    with Cons.prems(1) have "filter (\<lambda>z. f z = f x) ys = []"
      by (auto simp: filter_empty_conv image_iff)
    with True show ?thesis by simp
  next
    case False
    with Cons.prems have "x \<in> set ys" "f y \<noteq> f x" by (auto simp: image_iff)
    with Cons show ?thesis by simp
  qed
qed

lemma edgeInfo_scan_success:
  "edgeInfo_scan toV es = Inr info \<Longrightarrow> \<exists>it\<in>set es. toVertex it = toV \<and> einfo it = info"
  by (induction es) (auto split: if_splits)

lemma edgeInfo_success:
  assumes "edgeInfo fromV toV g = Inr info"
  shows "fromV \<in> set (g_v g) \<and> toV \<in> set (g_v g) \<and>
         (\<exists>dv it. g_m g fromV = Some dv \<and> it \<in> set (edges dv) \<and> toVertex it = toV \<and>
                   einfo it = info)"
proof -
  from assms obtain dv where v: "fromV \<in> set (g_v g)" "toV \<in> set (g_v g)"
    and dv: "g_m g fromV = Some dv" and scan: "edgeInfo_scan toV (edges dv) = Inr info"
    by (auto simp: edgeInfo_def VertexExist_iff split: if_splits option.splits)
  from edgeInfo_scan_success [OF scan] v dv show ?thesis by blast
qed

lemma removeEdge_success:
  assumes "g_m g fromV = Some dv" and "edgeInfo fromV toV g = Inr info"
    and "(fromV, toV) \<in> set (g_e g)"
  shows "removeEdge fromV toV g =
           (None, g\<lparr>edgeC := edgeC g - 1,
                    g_m := (g_m g)(fromV \<mapsto>
                      dv\<lparr>edges := filter (\<lambda>i. toVertex i \<noteq> toV) (edges dv)\<rparr>),
                    g_e := remove1 (fromV, toV) (g_e g)\<rparr>)"
  using assms by (simp add: removeEdge_def Let_def)

lemma wf_removeEdge:
  assumes "wf_Digraph g"
  shows "wf_Digraph (snd (removeEdge fromV toV g))"
proof (cases "edgeInfo fromV toV g")
  case (Inl err)
  with assms show ?thesis by (simp add: removeEdge_def)
next
  case (Inr info)
  from edgeInfo_success [OF Inr] obtain dv it where inv: "fromV \<in> set (g_v g)"
    and dv: "g_m g fromV = Some dv" and it: "it \<in> set (edges dv)" "toVertex it = toV"
    by blast
  have listed: "(fromV, toV) \<in> set (g_e g)"
    using wf_edge_listed [OF assms dv it(1)] it(2) by simp
  let ?keep = "filter (\<lambda>i. toVertex i \<noteq> toV) (edges dv)"
  let ?g' = "g\<lparr>edgeC := edgeC g - 1, g_m := (g_m g)(fromV \<mapsto> dv\<lparr>edges := ?keep\<rparr>),
                g_e := remove1 (fromV, toV) (g_e g)\<rparr>"
  have dist: "distinct (map toVertex (edges dv))"
    using wf_out_distinct [OF assms inv] dv by (simp add: out_of_Some)
  have "filter (\<lambda>i. toVertex i = toVertex it) (edges dv) = [it]"
    using dist it(1) by (rule filter_eq_singleton)
  then have gone: "filter (\<lambda>i. \<not> toVertex i \<noteq> toV) (edges dv) = [it]"
    using it(2) by simp
  have "mset (edges dv) = mset ?keep + mset (filter (\<lambda>i. \<not> toVertex i \<noteq> toV) (edges dv))"
    by (simp only: mset_filter multiset_partition [symmetric])
  with gone have split: "mset (edges dv) = mset ?keep + {#it#}" by simp
  have "mset (all_edges ?g') + mset (edges dv) = mset (all_edges g) + mset ?keep"
    using mset_concat_map_upd [OF wf_distinct [OF assms] inv, of "out_of (g_m g)" ?keep] dv
    by (simp add: all_edges_def out_of_upd out_of_Some)
  then have "(mset (all_edges ?g') + {#it#}) + mset ?keep = mset (all_edges g) + mset ?keep"
    unfolding split by (simp only: ac_simps)
  then have all: "mset (all_edges g) = mset (all_edges ?g') + {#it#}"
    by (simp only: add_right_cancel)
  have pair: "edge_pair it = (fromV, toV)"
    using wf_edge [OF assms inv, of it] dv it by (simp add: out_of_Some edge_pair_def)
  have "wf_Digraph ?g'"
    unfolding wf_Digraph_def
  proof (intro conjI)
    show "mset (g_e ?g') = mset (map edge_pair (all_edges ?g'))"
      using wf_mset [OF assms] arg_cong [OF all, of "image_mset edge_pair"] pair by simp
    show "\<forall>n\<in>set (g_v ?g'). \<forall>it\<in>set (out_of (g_m ?g') n).
            fromVertex it = n \<and> toVertex it \<in> set (g_v ?g')"
      using wf_edge [OF assms] inv dv by (auto simp: out_of_upd out_of_Some)
    show "\<forall>n\<in>set (g_v ?g'). distinct (map toVertex (out_of (g_m ?g') n))"
      using wf_out_distinct [OF assms] dist by (auto simp: out_of_upd distinct_map_filter)
    show "dom (g_m ?g') = set (g_v ?g')"
      using wf_dom [OF assms] inv by auto
    show "edgeC ?g' = int (length (g_e ?g'))"
    proof -
      from listed have "int (length (g_e g) - 1) = int (length (g_e g)) - 1"
        by (cases "g_e g") auto
      with wf_edgeC [OF assms] listed show ?thesis by (simp add: length_remove1)
    qed
  qed (use assms in \<open>simp_all add: wf_Digraph_def\<close>)
  with dv Inr listed show ?thesis by (simp add: removeEdge_success)
qed

subsection \<open>What the two rebuilding loops compute\<close>

text \<open>
  \<open>rebuilt keep m0 ns\<close> is the graph with the vertices \<open>ns\<close>, their payloads taken from
  \<open>m0\<close>, and of every outgoing list of \<open>m0\<close> the edges that pass \<open>keep\<close>.
\<close>

definition rebuilt ::
  "('e DigraphEdge \<Rightarrow> bool) \<Rightarrow> (int \<rightharpoonup> ('v, 'e) DigraphVertex) \<Rightarrow> int list \<Rightarrow>
     ('v, 'e) Digraph" where
  "rebuilt keep m0 ns =
     \<lparr>g_m = (\<lambda>n. if n \<in> set ns
                  then map_option (\<lambda>dv. \<lparr>vinfo = vinfo dv, edges = filter keep (edges dv)\<rparr>) (m0 n)
                  else None),
      g_v = ns,
      g_e = concat (map (\<lambda>n. map edge_pair (filter keep (out_of m0 n))) ns),
      vertexC = int (length ns),
      edgeC = int (length (concat (map (\<lambda>n. filter keep (out_of m0 n)) ns)))\<rparr>"

lemma addVertices_loop_run:
  assumes "distinct ns" and "set ns \<subseteq> dom m0" and "set ns \<inter> dom (g_m g) = {}"
  shows "addVertices_loop m0 ns g =
           (None, g\<lparr>vertexC := vertexC g + int (length ns), g_v := g_v g @ ns,
                    g_m := (\<lambda>n. if n \<in> set ns
                                 then map_option (\<lambda>dv. \<lparr>vinfo = vinfo dv, edges = []\<rparr>) (m0 n)
                                 else g_m g n)\<rparr>)"
  using assms
proof (induction ns arbitrary: g)
  case Nil
  then show ?case by simp
next
  case (Cons n ns)
  from Cons.prems obtain dv where dv: "m0 n = Some dv" by auto
  from Cons.prems have fresh: "g_m g n = None" by auto
  let ?g1 = "g\<lparr>vertexC := vertexC g + 1, g_v := g_v g @ [n],
                g_m := (g_m g)(n \<mapsto> \<lparr>vinfo = vinfo dv, edges = []\<rparr>)\<rparr>"
  have step: "addVertex n (vinfo dv) g = (None, ?g1)"
    using fresh by (rule addVertex_success)
  have disj: "set ns \<inter> dom (g_m ?g1) = {}"
    using Cons.prems by (auto simp: disjoint_iff split: if_splits)
  from Cons.prems have "distinct ns" "set ns \<subseteq> dom m0" by auto
  then have rest: "addVertices_loop m0 ns ?g1 =
      (None, ?g1\<lparr>vertexC := vertexC ?g1 + int (length ns), g_v := g_v ?g1 @ ns,
                g_m := (\<lambda>k. if k \<in> set ns
                             then map_option (\<lambda>dv. \<lparr>vinfo = vinfo dv, edges = []\<rparr>) (m0 k)
                             else g_m ?g1 k)\<rparr>)"
    using disj by (rule Cons.IH)
  have "(\<lambda>k. if k \<in> set ns
              then map_option (\<lambda>dv. \<lparr>vinfo = vinfo dv, edges = []\<rparr>) (m0 k)
              else g_m ?g1 k) =
        (\<lambda>k. if k \<in> set (n # ns)
              then map_option (\<lambda>dv. \<lparr>vinfo = vinfo dv, edges = []\<rparr>) (m0 k)
              else g_m g k)"
    using dv by (auto simp: fun_eq_iff)
  with dv step rest show ?case by simp
qed

lemma addEdges_inner_run:
  assumes "g_m g n = Some dv"
    and "\<forall>it\<in>set es. keep it \<longrightarrow> fromVertex it = n \<and> toVertex it \<in> dom (g_m g)"
    and "distinct (map toVertex (filter keep es))"
    and "\<forall>it\<in>set es. keep it \<longrightarrow> toVertex it \<notin> toVertex ` set (edges dv)"
  shows "addEdges_inner keep es g =
           (None, g\<lparr>edgeC := edgeC g + int (length (filter keep es)),
                    g_e := g_e g @ map edge_pair (filter keep es),
                    g_m := (g_m g)(n \<mapsto> dv\<lparr>edges := edges dv @ filter keep es\<rparr>)\<rparr>)"
  using assms
proof (induction es arbitrary: g dv)
  case Nil
  then show ?case by (simp add: map_upd_triv)
next
  case (Cons edge rest)
  show ?case
  proof (cases "keep edge")
    case False
    with Cons.prems have "addEdges_inner keep rest g =
        (None, g\<lparr>edgeC := edgeC g + int (length (filter keep rest)),
                 g_e := g_e g @ map edge_pair (filter keep rest),
                 g_m := (g_m g)(n \<mapsto> dv\<lparr>edges := edges dv @ filter keep rest\<rparr>)\<rparr>)"
      by (intro Cons.IH) simp_all
    with False show ?thesis by (simp add: fun_upd_def)
  next
    case True
    with Cons.prems have src: "fromVertex edge = n" and dst: "toVertex edge \<in> dom (g_m g)"
      and fresh: "toVertex edge \<notin> toVertex ` set (edges dv)"
      by auto
    from dst obtain j where j: "g_m g (toVertex edge) = Some j" by auto
    let ?dv1 = "dv\<lparr>edges := edges dv @ [edge]\<rparr>"
    let ?g1 = "g\<lparr>edgeC := edgeC g + 1, g_e := g_e g @ [(n, toVertex edge)],
                  g_m := (g_m g)(n \<mapsto> ?dv1)\<rparr>"
    have new: "\<lparr>fromVertex = n, toVertex = toVertex edge, einfo = einfo edge\<rparr> = edge"
      unfolding src [symmetric] by simp
    have step: "addEdge (fromVertex edge) (toVertex edge) (einfo edge) g = (None, ?g1)"
      unfolding src
      using addEdge_success [OF Cons.prems(1) j fresh, of "einfo edge"] by (simp only: new)
    have rest: "addEdges_inner keep rest ?g1 =
        (None, ?g1\<lparr>edgeC := edgeC ?g1 + int (length (filter keep rest)),
                  g_e := g_e ?g1 @ map edge_pair (filter keep rest),
                  g_m := (g_m ?g1)(n \<mapsto> ?dv1\<lparr>edges := edges ?dv1 @ filter keep rest\<rparr>)\<rparr>)"
    proof (rule Cons.IH)
      show "g_m ?g1 n = Some ?dv1" by simp
      show "\<forall>it\<in>set rest. keep it \<longrightarrow> fromVertex it = n \<and> toVertex it \<in> dom (g_m ?g1)"
        using Cons.prems(2) by auto
      show "distinct (map toVertex (filter keep rest))"
        using Cons.prems(3) True by simp
      show "\<forall>it\<in>set rest. keep it \<longrightarrow> toVertex it \<notin> toVertex ` set (edges ?dv1)"
        using Cons.prems(3,4) True by (auto simp: image_iff)
    qed
    have pair: "edge_pair edge = (n, toVertex edge)"
      using src by (simp add: edge_pair_def)
    from True step have "addEdges_inner keep (edge # rest) g = addEdges_inner keep rest ?g1"
      by simp
    also note rest
    also have "?g1\<lparr>edgeC := edgeC ?g1 + int (length (filter keep rest)),
                  g_e := g_e ?g1 @ map edge_pair (filter keep rest),
                  g_m := (g_m ?g1)(n \<mapsto> ?dv1\<lparr>edges := edges ?dv1 @ filter keep rest\<rparr>)\<rparr> =
               g\<lparr>edgeC := edgeC g + int (length (filter keep (edge # rest))),
                 g_e := g_e g @ map edge_pair (filter keep (edge # rest)),
                 g_m := (g_m g)(n \<mapsto> dv\<lparr>edges := edges dv @ filter keep (edge # rest)\<rparr>)\<rparr>"
      using True by (simp add: pair)
    finally show ?thesis .
  qed
qed

lemma addEdges_loop_run:
  assumes "distinct ns"
    and "\<forall>n\<in>set ns. n \<in> dom m0 \<and> (\<exists>dv. g_m g n = Some dv \<and> edges dv = [])"
    and "\<forall>n\<in>set ns. \<forall>it\<in>set (out_of m0 n).
           keep it \<longrightarrow> fromVertex it = n \<and> toVertex it \<in> dom (g_m g)"
    and "\<forall>n\<in>set ns. distinct (map toVertex (filter keep (out_of m0 n)))"
  shows "addEdges_loop keep m0 ns g =
           (None, g\<lparr>edgeC := edgeC g + int (length (concat (map (\<lambda>n. filter keep (out_of m0 n)) ns))),
                    g_e := g_e g @ concat (map (\<lambda>n. map edge_pair (filter keep (out_of m0 n))) ns),
                    g_m := (\<lambda>k. if k \<in> set ns
                                 then map_option (\<lambda>dv. dv\<lparr>edges := filter keep (out_of m0 k)\<rparr>)
                                        (g_m g k)
                                 else g_m g k)\<rparr>)"
  using assms
proof (induction ns arbitrary: g)
  case Nil
  then show ?case by simp
next
  case (Cons n ns)
  from Cons.prems(2) obtain dv0 dv where dv0: "m0 n = Some dv0"
    and dv: "g_m g n = Some dv" and empty: "edges dv = []"
    by auto
  have out: "out_of m0 n = edges dv0" using dv0 by (simp add: out_of_Some)
  let ?es = "filter keep (edges dv0)"
  let ?g1 = "g\<lparr>edgeC := edgeC g + int (length ?es), g_e := g_e g @ map edge_pair ?es,
                g_m := (g_m g)(n \<mapsto> dv\<lparr>edges := ?es\<rparr>)\<rparr>"
  have inner: "addEdges_inner keep (edges dv0) g = (None, ?g1)"
  proof -
    have "addEdges_inner keep (edges dv0) g =
        (None, g\<lparr>edgeC := edgeC g + int (length ?es), g_e := g_e g @ map edge_pair ?es,
                 g_m := (g_m g)(n \<mapsto> dv\<lparr>edges := edges dv @ ?es\<rparr>)\<rparr>)"
    proof (rule addEdges_inner_run [OF dv])
      show "\<forall>it\<in>set (edges dv0). keep it \<longrightarrow> fromVertex it = n \<and> toVertex it \<in> dom (g_m g)"
        using Cons.prems(3) out by simp
      show "distinct (map toVertex ?es)" using Cons.prems(4) out by simp
      show "\<forall>it\<in>set (edges dv0). keep it \<longrightarrow> toVertex it \<notin> toVertex ` set (edges dv)"
        using empty by simp
    qed
    with empty show ?thesis by simp
  qed
  have dom1: "dom (g_m ?g1) = dom (g_m g)" using dv by auto
  have rest: "addEdges_loop keep m0 ns ?g1 =
      (None, ?g1\<lparr>edgeC := edgeC ?g1 + int (length (concat (map (\<lambda>n. filter keep (out_of m0 n)) ns))),
                g_e := g_e ?g1 @ concat (map (\<lambda>n. map edge_pair (filter keep (out_of m0 n))) ns),
                g_m := (\<lambda>k. if k \<in> set ns
                             then map_option (\<lambda>dv. dv\<lparr>edges := filter keep (out_of m0 k)\<rparr>)
                                    (g_m ?g1 k)
                             else g_m ?g1 k)\<rparr>)"
  proof (rule Cons.IH)
    show "distinct ns" using Cons.prems(1) by simp
    show "\<forall>k\<in>set ns. k \<in> dom m0 \<and> (\<exists>dv. g_m ?g1 k = Some dv \<and> edges dv = [])"
      using Cons.prems(1,2) by auto
    show "\<forall>k\<in>set ns. \<forall>it\<in>set (out_of m0 k).
           keep it \<longrightarrow> fromVertex it = k \<and> toVertex it \<in> dom (g_m ?g1)"
      unfolding dom1 using Cons.prems(3) by simp
    show "\<forall>k\<in>set ns. distinct (map toVertex (filter keep (out_of m0 k)))"
      using Cons.prems(4) by simp
  qed
  have m_eq: "(\<lambda>k. if k \<in> set ns
                 then map_option (\<lambda>dv. dv\<lparr>edges := filter keep (out_of m0 k)\<rparr>) (g_m ?g1 k)
                 else g_m ?g1 k) =
              (\<lambda>k. if k \<in> set (n # ns)
                 then map_option (\<lambda>dv. dv\<lparr>edges := filter keep (out_of m0 k)\<rparr>) (g_m g k)
                 else g_m g k)"
    using Cons.prems(1) dv out by (auto simp: fun_eq_iff)
  from dv0 inner have "addEdges_loop keep m0 (n # ns) g = addEdges_loop keep m0 ns ?g1"
    by simp
  also note rest
  also have "?g1\<lparr>edgeC := edgeC ?g1 + int (length (concat (map (\<lambda>n. filter keep (out_of m0 n)) ns))),
                g_e := g_e ?g1 @ concat (map (\<lambda>n. map edge_pair (filter keep (out_of m0 n))) ns),
                g_m := (\<lambda>k. if k \<in> set ns
                             then map_option (\<lambda>dv. dv\<lparr>edges := filter keep (out_of m0 k)\<rparr>)
                                    (g_m ?g1 k)
                             else g_m ?g1 k)\<rparr> =
      g\<lparr>edgeC := edgeC g + int (length (concat (map (\<lambda>n. filter keep (out_of m0 n)) (n # ns)))),
        g_e := g_e g @ concat (map (\<lambda>n. map edge_pair (filter keep (out_of m0 n))) (n # ns)),
        g_m := (\<lambda>k. if k \<in> set (n # ns)
                     then map_option (\<lambda>dv. dv\<lparr>edges := filter keep (out_of m0 k)\<rparr>) (g_m g k)
                     else g_m g k)\<rparr>"
    unfolding m_eq by (simp add: out)
  finally show ?case .
qed

lemma reset_is_empty:
  "g\<lparr>vertexC := 0, edgeC := 0, g_m := Map.empty, g_v := [], g_e := []\<rparr> =
     (Digraph_empty :: ('v, 'e) Digraph)"
  by (simp add: Digraph_empty_def)

lemma out_of_rebuilt:
  "set ns \<subseteq> dom m0 \<Longrightarrow>
     out_of (g_m (rebuilt keep m0 ns)) n = (if n \<in> set ns then filter keep (out_of m0 n) else [])"
  by (auto simp: rebuilt_def out_of_def split: option.splits)

lemma all_edges_rebuilt:
  assumes "set ns \<subseteq> dom m0"
  shows "all_edges (rebuilt keep m0 ns) = concat (map (\<lambda>n. filter keep (out_of m0 n)) ns)"
proof -
  have "map (out_of (g_m (rebuilt keep m0 ns))) ns = map (\<lambda>n. filter keep (out_of m0 n)) ns"
    by (rule map_cong [OF refl]) (simp add: out_of_rebuilt [OF assms])
  moreover have "g_v (rebuilt keep m0 ns) = ns" by (simp add: rebuilt_def)
  ultimately show ?thesis by (simp only: all_edges_def)
qed

lemma g_v_rebuilt [simp]: "g_v (rebuilt keep m0 ns) = ns"
  by (simp add: rebuilt_def)

lemma g_e_rebuilt: "g_e (rebuilt keep m0 ns) =
    map edge_pair (concat (map (\<lambda>n. filter keep (out_of m0 n)) ns))"
  by (simp add: rebuilt_def map_concat comp_def)

lemma rebuild_run:
  assumes "distinct ns" and "set ns \<subseteq> dom m0"
    and "\<forall>n\<in>set ns. \<forall>it\<in>set (out_of m0 n).
           keep it \<longrightarrow> fromVertex it = n \<and> toVertex it \<in> set ns"
    and "\<forall>n\<in>set ns. distinct (map toVertex (filter keep (out_of m0 n)))"
  shows "(case addVertices_loop m0 ns Digraph_empty of
            (Some err, g1) \<Rightarrow> (Some err, g1)
          | (None, g1) \<Rightarrow> addEdges_loop keep m0 ns g1) = (None, rebuilt keep m0 ns)"
proof -
  let ?m1 = "\<lambda>n. if n \<in> set ns
                  then map_option (\<lambda>dv. \<lparr>vinfo = vinfo dv, edges = []\<rparr>) (m0 n)
                  else g_m (Digraph_empty :: ('a, 'b) Digraph) n"
  let ?g1 = "(Digraph_empty :: ('a, 'b) Digraph)\<lparr>
                vertexC := vertexC (Digraph_empty :: ('a, 'b) Digraph) + int (length ns),
                g_v := g_v (Digraph_empty :: ('a, 'b) Digraph) @ ns, g_m := ?m1\<rparr>"
  have first: "addVertices_loop m0 ns Digraph_empty = (None, ?g1)"
    using assms(1,2) by (intro addVertices_loop_run) (simp_all add: Digraph_empty_def)
  have dom1: "dom (g_m ?g1) = set ns"
    using assms(2) by (auto simp: Digraph_empty_def split: if_splits)
  have second: "addEdges_loop keep m0 ns ?g1 =
      (None, ?g1\<lparr>edgeC := edgeC ?g1 + int (length (concat (map (\<lambda>n. filter keep (out_of m0 n)) ns))),
                g_e := g_e ?g1 @ concat (map (\<lambda>n. map edge_pair (filter keep (out_of m0 n))) ns),
                g_m := (\<lambda>k. if k \<in> set ns
                             then map_option (\<lambda>dv. dv\<lparr>edges := filter keep (out_of m0 k)\<rparr>)
                                    (g_m ?g1 k)
                             else g_m ?g1 k)\<rparr>)"
  proof (rule addEdges_loop_run [OF assms(1)])
    show "\<forall>n\<in>set ns. n \<in> dom m0 \<and> (\<exists>dv. g_m ?g1 n = Some dv \<and> edges dv = [])"
      using assms(2) by auto
    show "\<forall>n\<in>set ns. \<forall>it\<in>set (out_of m0 n).
           keep it \<longrightarrow> fromVertex it = n \<and> toVertex it \<in> dom (g_m ?g1)"
      unfolding dom1 using assms(3) by simp
    show "\<forall>n\<in>set ns. distinct (map toVertex (filter keep (out_of m0 n)))"
      using assms(4) by simp
  qed
  have m_eq: "(\<lambda>k. if k \<in> set ns
                 then map_option (\<lambda>dv. dv\<lparr>edges := filter keep (out_of m0 k)\<rparr>) (g_m ?g1 k)
                 else g_m ?g1 k) = g_m (rebuilt keep m0 ns)"
    using assms(2) by (auto simp: fun_eq_iff rebuilt_def out_of_def Digraph_empty_def)
  have "?g1\<lparr>edgeC := edgeC ?g1 + int (length (concat (map (\<lambda>n. filter keep (out_of m0 n)) ns))),
                g_e := g_e ?g1 @ concat (map (\<lambda>n. map edge_pair (filter keep (out_of m0 n))) ns),
                g_m := (\<lambda>k. if k \<in> set ns
                             then map_option (\<lambda>dv. dv\<lparr>edges := filter keep (out_of m0 k)\<rparr>)
                                    (g_m ?g1 k)
                             else g_m ?g1 k)\<rparr> = rebuilt keep m0 ns"
    unfolding m_eq by (simp add: rebuilt_def Digraph_empty_def)
  with first second show ?thesis by simp
qed

lemma wf_rebuilt:
  assumes "distinct ns" and "set ns \<subseteq> dom m0"
    and "\<forall>n\<in>set ns. \<forall>it\<in>set (out_of m0 n).
           keep it \<longrightarrow> fromVertex it = n \<and> toVertex it \<in> set ns"
    and "\<forall>n\<in>set ns. distinct (map toVertex (filter keep (out_of m0 n)))"
  shows "wf_Digraph (rebuilt keep m0 ns)"
  unfolding wf_Digraph_def
proof (intro conjI)
  show "distinct (g_v (rebuilt keep m0 ns))" using assms(1) by (simp add: rebuilt_def)
  show "dom (g_m (rebuilt keep m0 ns)) = set (g_v (rebuilt keep m0 ns))"
    using assms(2) by (auto simp: rebuilt_def split: if_splits)
  show "\<forall>n\<in>set (g_v (rebuilt keep m0 ns)). \<forall>it\<in>set (out_of (g_m (rebuilt keep m0 ns)) n).
          fromVertex it = n \<and> toVertex it \<in> set (g_v (rebuilt keep m0 ns))"
    using assms(3) by (simp add: out_of_rebuilt [OF assms(2)])
  show "\<forall>n\<in>set (g_v (rebuilt keep m0 ns)).
          distinct (map toVertex (out_of (g_m (rebuilt keep m0 ns)) n))"
    using assms(4) by (simp add: out_of_rebuilt [OF assms(2)])
  show "mset (g_e (rebuilt keep m0 ns)) = mset (map edge_pair (all_edges (rebuilt keep m0 ns)))"
    by (simp only: g_e_rebuilt all_edges_rebuilt [OF assms(2)])
  show "vertexC (rebuilt keep m0 ns) = int (length (g_v (rebuilt keep m0 ns)))"
    by (simp add: rebuilt_def)
  show "edgeC (rebuilt keep m0 ns) = int (length (g_e (rebuilt keep m0 ns)))"
    by (simp add: g_e_rebuilt) (simp add: rebuilt_def)
qed

text \<open>What \<open>removeVertex\<close> returns on a graph that satisfies the invariant.\<close>

lemma removeVertex_run:
  assumes "wf_Digraph g"
  shows "removeVertex vertex g =
           (None, rebuilt (\<lambda>edge. fromVertex edge \<noteq> vertex \<and> toVertex edge \<noteq> vertex) (g_m g)
                    (filter (\<lambda>ve. ve \<noteq> vertex) (g_v g)))"
    and "wf_Digraph (rebuilt (\<lambda>edge. fromVertex edge \<noteq> vertex \<and> toVertex edge \<noteq> vertex) (g_m g)
                    (filter (\<lambda>ve. ve \<noteq> vertex) (g_v g)))"
proof -
  let ?keep = "\<lambda>edge :: 'b DigraphEdge. fromVertex edge \<noteq> vertex \<and> toVertex edge \<noteq> vertex"
  let ?ns = "filter (\<lambda>ve. ve \<noteq> vertex) (g_v g)"
  have 1: "distinct ?ns" using wf_distinct [OF assms] by simp
  have 2: "set ?ns \<subseteq> dom (g_m g)" using wf_dom [OF assms] by auto
  have 3: "\<forall>n\<in>set ?ns. \<forall>it\<in>set (out_of (g_m g) n).
             ?keep it \<longrightarrow> fromVertex it = n \<and> toVertex it \<in> set ?ns"
    using wf_edge [OF assms] by auto
  have 4: "\<forall>n\<in>set ?ns. distinct (map toVertex (filter ?keep (out_of (g_m g) n)))"
    using wf_out_distinct [OF assms] by (auto simp: distinct_map_filter)
  from rebuild_run [OF 1 2 3 4]
  show "removeVertex vertex g = (None, rebuilt ?keep (g_m g) ?ns)"
    by (simp add: removeVertex_def reset_is_empty)
  from 1 2 3 4 show "wf_Digraph (rebuilt ?keep (g_m g) ?ns)" by (rule wf_rebuilt)
qed

lemma wf_removeVertex: "wf_Digraph g \<Longrightarrow> wf_Digraph (snd (removeVertex vertex g))"
  by (simp add: removeVertex_run)

section \<open>Failing mutations\<close>

text \<open>
  C5. Whenever \<open>addVertex\<close>, \<open>addEdge\<close> or \<open>removeEdge\<close> throws a \<open>DigraphException\<close>
  (vertex already exists, no such vertex, no such edge, edge already exists), the object
  is left exactly as it was before the call: the throw comes before the first
  assignment to a member.
\<close>

theorem failed_mutation_leaves_graph:
  "(addVertex vertex vi g = (Some err, g') \<longrightarrow> is_DigraphException err \<and> g' = g) \<and>
   (addEdge fromV toV ei g = (Some err, g') \<longrightarrow> is_DigraphException err \<and> g' = g) \<and>
   (removeEdge fromV toV g = (Some err, g') \<longrightarrow> is_DigraphException err \<longrightarrow> g' = g)"
  using addVertex_error [of vertex vi g err g'] addEdge_error [of fromV toV ei g err g']
    removeEdge_error [of fromV toV g err g']
  by auto

theorem failed_mutation_leaves_graph_witness:
  "addVertex 1 ''b'' (snd (addVertex 1 ''a'' Digraph_empty)) =
     (Some (VertexAlreadyExists 1), snd (addVertex 1 ''a'' (Digraph_empty :: (string, nat) Digraph))) \<and>
   addEdge 1 2 (7 :: nat) (snd (addVertex 1 ''a'' Digraph_empty)) =
     (Some (NoSuchVertex 2), snd (addVertex 1 ''a'' (Digraph_empty :: (string, nat) Digraph))) \<and>
   removeEdge 1 1 (snd (addVertex 1 ''a'' Digraph_empty)) =
     (Some NoSuchEdge, snd (addVertex 1 ''a'' (Digraph_empty :: (string, nat) Digraph))) \<and>
   is_DigraphException (VertexAlreadyExists 1) \<and> is_DigraphException (NoSuchVertex 2) \<and>
   is_DigraphException NoSuchEdge"
proof -
  let ?g = "snd (addVertex 1 ''a'' (Digraph_empty :: (string, nat) Digraph))"
  have a: "fst (addVertex 1 ''b'' ?g) = Some (VertexAlreadyExists 1)"
    by (simp add: addVertex_def findVertexNotExist_def Digraph_empty_def)
  have b: "fst (addEdge 1 2 (7 :: nat) ?g) = Some (NoSuchVertex 2)"
    by (simp add: addEdge_def addVertex_def findVertex_def findVertexNotExist_def
        Digraph_empty_def)
  have c: "fst (removeEdge 1 1 ?g) = Some NoSuchEdge"
    by (simp add: removeEdge_def edgeInfo_def VertexExist_def addVertex_def
        findVertexNotExist_def Digraph_empty_def)
  from a b c
    failed_mutation_leaves_graph [of 1 "''b''" ?g "VertexAlreadyExists 1"
      "snd (addVertex 1 ''b'' ?g)" 1 2 7]
    failed_mutation_leaves_graph [of 1 "''b''" ?g "NoSuchVertex 2"
      "snd (addEdge 1 2 7 ?g)" 1 2 7]
    failed_mutation_leaves_graph [of 1 "''b''" ?g "NoSuchEdge"
      "snd (removeEdge 1 1 ?g)" 1 1 7]
  show ?thesis
    by (metis is_DigraphException.simps(1,2,3) prod.collapse)
qed

section \<open>Removing a vertex that is not there\<close>

text \<open>
  \<open>removeVertex\<close> has no \<open>throw\<close> of its own, and on a graph that satisfies the
  invariant the calls of \<open>addVertex\<close> and \<open>addEdge\<close> in its loops do not throw either.
\<close>

lemma removeVertex_returns: "wf_Digraph g \<Longrightarrow> fst (removeVertex vertex g) = None"
  by (simp add: removeVertex_run)

text \<open>
  C1. The header promises a \<open>DigraphException\<close> when \<open>removeVertex\<close> is given a vertex
  that does not exist. \<open>removeVertex\<close> never looks the vertex up: on the graph holding
  the single vertex 1 the call \<open>removeVertex(2)\<close> returns normally, and so it does on
  the empty graph.
\<close>

theorem removeVertex_absent_returns_normally:
  "removeVertex 2 (snd (addVertex 1 ''a'' (Digraph_empty :: (string, nat) Digraph))) =
     (None, snd (addVertex 1 ''a'' Digraph_empty)) \<and>
   removeVertex 2 (Digraph_empty :: (string, nat) Digraph) = (None, Digraph_empty)"
  by (simp add: removeVertex_def addVertex_def findVertexNotExist_def Digraph_empty_def)

section \<open>Self-loops\<close>

text \<open>
  C10. \<open>addEdge\<close> has no test of \<open>fromVertex == toVertex\<close>: for a vertex \<open>a\<close> of the
  graph with no edge \<open>(a, a)\<close> yet, \<open>addEdge(a, a, info)\<close> returns normally, the edge
  count grows by one and \<open>edgeInfo(a, a)\<close> returns \<open>info\<close> afterwards.
\<close>

theorem self_loop_accepted:
  assumes "wf_Digraph g" and "a \<in> set (vertices g)" and "(a, a) \<notin> set (edges_all g)"
  shows "\<exists>g'. addEdge a a info g = (None, g') \<and> edgeCount g' = edgeCount g + 1 \<and>
           edgeInfo a a g' = Inr info"
proof -
  from assms(2) have a: "a \<in> set (g_v g)" by (simp add: vertices_def)
  with wf_lookup [OF assms(1)] obtain dv where dv: "g_m g a = Some dv" by blast
  have fresh: "a \<notin> toVertex ` set (edges dv)"
    using wf_edge_listed [OF assms(1) dv] assms(3) by (auto simp: edges_all_def)
  let ?new = "\<lparr>fromVertex = a, toVertex = a, einfo = info\<rparr>"
  let ?g' = "g\<lparr>edgeC := edgeC g + 1, g_e := g_e g @ [(a, a)],
                g_m := (g_m g)(a \<mapsto> dv\<lparr>edges := edges dv @ [?new]\<rparr>)\<rparr>"
  have run: "addEdge a a info g = (None, ?g')"
    using dv fresh by (rule addEdge_success [OF _ dv])
  have "edgeInfo a a ?g' = Inr info"
    using a fresh by (simp add: edgeInfo_def VertexExist_iff edgeInfo_scan_append
        edgeInfo_scan_absent)
  with run show ?thesis by (simp add: edgeCount_def)
qed

theorem self_loop_accepted_witness:
  "wf_Digraph (snd (addVertex 1 ''a'' (Digraph_empty :: (string, nat) Digraph))) \<and>
   1 \<in> set (vertices (snd (addVertex 1 ''a'' (Digraph_empty :: (string, nat) Digraph)))) \<and>
   (1, 1) \<notin> set (edges_all (snd (addVertex 1 ''a'' (Digraph_empty :: (string, nat) Digraph)))) \<and>
   (\<exists>g'. addEdge 1 1 5 (snd (addVertex 1 ''a'' (Digraph_empty :: (string, nat) Digraph))) =
            (None, g') \<and>
          edgeCount g' =
            edgeCount (snd (addVertex 1 ''a'' (Digraph_empty :: (string, nat) Digraph))) + 1 \<and>
          edgeInfo 1 1 g' = Inr 5)"
proof -
  let ?g = "snd (addVertex 1 ''a'' (Digraph_empty :: (string, nat) Digraph))"
  have w: "wf_Digraph ?g" by (rule wf_addVertex [OF wf_Digraph_empty])
  have v: "1 \<in> set (vertices ?g)"
    by (simp add: vertices_def addVertex_def findVertexNotExist_def Digraph_empty_def)
  have e: "(1, 1) \<notin> set (edges_all ?g)"
    by (simp add: edges_all_def addVertex_def findVertexNotExist_def Digraph_empty_def)
  from w v e self_loop_accepted [OF w v e, of 5] show ?thesis by simp
qed

section \<open>The invariants after an operation\<close>

lemma Digraph_copy_run:
  assumes "wf_Digraph d"
  shows "Digraph_copy d = (None, rebuilt (\<lambda>edge. True) (g_m d) (g_v d))"
    and "wf_Digraph (rebuilt (\<lambda>edge. True) (g_m d) (g_v d))"
proof -
  let ?keep = "\<lambda>edge :: 'b DigraphEdge. True"
  have 1: "distinct (g_v d)" by (rule wf_distinct [OF assms])
  have 2: "set (g_v d) \<subseteq> dom (g_m d)" using wf_dom [OF assms] by simp
  have 3: "\<forall>n\<in>set (g_v d). \<forall>it\<in>set (out_of (g_m d) n).
             ?keep it \<longrightarrow> fromVertex it = n \<and> toVertex it \<in> set (g_v d)"
    using wf_edge [OF assms] by simp
  have 4: "\<forall>n\<in>set (g_v d). distinct (map toVertex (filter ?keep (out_of (g_m d) n)))"
    using wf_out_distinct [OF assms] by simp
  from rebuild_run [OF 1 2 3 4]
  show "Digraph_copy d = (None, rebuilt ?keep (g_m d) (g_v d))"
    by (simp add: Digraph_copy_def)
  from 1 2 3 4 show "wf_Digraph (rebuilt ?keep (g_m d) (g_v d))" by (rule wf_rebuilt)
qed

lemma Digraph_assign_eq:
  "Digraph_assign same d g = (if same then (None, g) else Digraph_copy d)"
  by (simp add: Digraph_assign_def Digraph_copy_def reset_is_empty)

lemma wf_Digraph_copy: "wf_Digraph d \<Longrightarrow> wf_Digraph (snd (Digraph_copy d))"
  by (simp add: Digraph_copy_run)

lemma wf_Digraph_assign:
  "wf_Digraph d \<Longrightarrow> wf_Digraph g \<Longrightarrow> wf_Digraph (snd (Digraph_assign same d g))"
  by (simp add: Digraph_assign_eq wf_Digraph_copy)

lemma Digraph_move_target [simp]: "fst (Digraph_move d) = d"
  by (simp add: Digraph_move_def)

lemma Digraph_move_assign_target [simp]:
  "fst (Digraph_move_assign same d g) = (if same then g else d)"
  by (simp add: Digraph_move_assign_def)

lemma Digraph_move_assign_source:
  "snd (Digraph_move_assign same d g) = (if same then d else snd (Digraph_move d))"
  by (simp add: Digraph_move_assign_def Digraph_move_def)

text \<open>
  The states a graph object can be in: it starts empty, as a copy of another graph or
  with the members moved out of another graph, and every later public call (returning
  normally or throwing) leads to the next state. A move is a call on its argument too
  and leaves it in a state of its own. \<open>after_move\<close> says whether the program goes on
  with an object that it has moved from.
\<close>

inductive reachable_graph :: "bool \<Rightarrow> ('v, 'e) Digraph \<Rightarrow> bool" for after_move :: bool where
  r_default: "reachable_graph after_move Digraph_empty"
| r_copy: "reachable_graph after_move d \<Longrightarrow> reachable_graph after_move (snd (Digraph_copy d))"
| r_move: "reachable_graph after_move d \<Longrightarrow> reachable_graph after_move (fst (Digraph_move d))"
| r_moved_from: "after_move \<Longrightarrow> reachable_graph after_move d \<Longrightarrow>
     reachable_graph after_move (snd (Digraph_move d))"
| r_assign: "reachable_graph after_move d \<Longrightarrow> reachable_graph after_move g \<Longrightarrow>
     reachable_graph after_move (snd (Digraph_assign same d g))"
| r_move_assign: "reachable_graph after_move d \<Longrightarrow> reachable_graph after_move g \<Longrightarrow>
     reachable_graph after_move (fst (Digraph_move_assign same d g))"
| r_move_assigned_from: "after_move \<Longrightarrow> reachable_graph after_move d \<Longrightarrow>
     reachable_graph after_move g \<Longrightarrow>
     reachable_graph after_move (snd (Digraph_move_assign same d g))"
| r_addVertex: "reachable_graph after_move g \<Longrightarrow>
     reachable_graph after_move (snd (addVertex vertex info g))"
| r_addEdge: "reachable_graph after_move g \<Longrightarrow>
     reachable_graph after_move (snd (addEdge fromV toV einf g))"
| r_removeVertex: "reachable_graph after_move g \<Longrightarrow>
     reachable_graph after_move (snd (removeVertex vertex g))"
| r_removeEdge: "reachable_graph after_move g \<Longrightarrow>
     reachable_graph after_move (snd (removeEdge fromV toV g))"

lemma reachable_wf: "reachable_graph False g \<Longrightarrow> wf_Digraph g"
proof (induction rule: reachable_graph.induct)
  case r_default
  show ?case by (rule wf_Digraph_empty)
qed (simp_all add: wf_Digraph_copy wf_Digraph_assign wf_addVertex wf_addEdge wf_removeVertex
    wf_removeEdge)

text \<open>The three invariants of the data model, in the words of the specification.\<close>

definition endpoints_present :: "('v, 'e) Digraph \<Rightarrow> bool" where
  "endpoints_present g \<longleftrightarrow>
     (\<forall>n dv. g_m g n = Some dv \<longrightarrow>
        (\<forall>it\<in>set (edges dv). fromVertex it \<in> set (vertices g) \<and> toVertex it \<in> set (vertices g))) \<and>
     (\<forall>(a, b)\<in>set (edges_all g). a \<in> set (vertices g) \<and> b \<in> set (vertices g))"

definition no_duplicate_pair :: "('v, 'e) Digraph \<Rightarrow> bool" where
  "no_duplicate_pair g \<longleftrightarrow> distinct (map edge_pair (all_edges g)) \<and> distinct (edges_all g)"

definition counts_agree :: "('v, 'e) Digraph \<Rightarrow> bool" where
  "counts_agree g \<longleftrightarrow>
     vertexCount g = int (card (set (vertices g))) \<and>
     vertexCount g = int (card (dom (g_m g))) \<and>
     edgeCount g = int (\<Sum>n\<leftarrow>vertices g. length (out_of (g_m g) n))"

lemma distinct_pairs_concat:
  "distinct ns \<Longrightarrow> \<forall>n\<in>set ns. \<forall>it\<in>set (f n). fromVertex it = n \<Longrightarrow>
     \<forall>n\<in>set ns. distinct (map toVertex (f n)) \<Longrightarrow>
     distinct (map edge_pair (concat (map f ns)))"
proof (induction ns)
  case Nil
  then show ?case by simp
next
  case (Cons n ns)
  have "inj_on edge_pair (set (f n))"
    using Cons.prems(3) by (auto simp: inj_on_def edge_pair_def distinct_map)
  moreover have "distinct (f n)" using Cons.prems(3) by (auto simp: distinct_map)
  ultimately have here: "distinct (map edge_pair (f n))" by (simp add: distinct_map)
  have "edge_pair ` set (f n) \<inter> edge_pair ` (\<Union>k\<in>set ns. set (f k)) = {}"
    using Cons.prems(1,2) by (auto simp: edge_pair_def)
  with here Cons show ?case by simp
qed

lemma wf_endpoints_present:
  assumes "wf_Digraph g"
  shows "endpoints_present g"
proof -
  have "fromVertex it \<in> set (g_v g) \<and> toVertex it \<in> set (g_v g)"
    if "g_m g n = Some dv" and "it \<in> set (edges dv)" for n dv it
  proof -
    from that(1) wf_dom [OF assms] have n: "n \<in> set (g_v g)" by auto
    from wf_edge [OF assms n, of it] that n show ?thesis by (simp add: out_of_Some)
  qed
  moreover have "a \<in> set (g_v g) \<and> b \<in> set (g_v g)" if "(a, b) \<in> set (g_e g)" for a b
  proof -
    from that obtain it where "a \<in> set (g_v g)" "it \<in> set (out_of (g_m g) a)" "b = toVertex it"
      unfolding wf_set_e [OF assms] by blast
    with wf_edge [OF assms, of a it] show ?thesis by simp
  qed
  ultimately show ?thesis
    unfolding endpoints_present_def vertices_def edges_all_def by blast
qed

lemma wf_no_duplicate_pair:
  assumes "wf_Digraph g"
  shows "no_duplicate_pair g"
proof -
  have "distinct (map edge_pair (all_edges g))"
    unfolding all_edges_def
    using wf_distinct [OF assms] wf_edge [OF assms] wf_out_distinct [OF assms]
    by (intro distinct_pairs_concat) auto
  moreover from this have "distinct (g_e g)"
    using wf_mset [OF assms] by (metis mset_eq_imp_distinct_iff)
  ultimately show ?thesis by (simp add: no_duplicate_pair_def edges_all_def)
qed

lemma wf_edgeC_sum:
  assumes "wf_Digraph g"
  shows "edgeC g = int (\<Sum>n\<leftarrow>g_v g. length (out_of (g_m g) n))"
proof -
  have "length (g_e g) = length (all_edges g)"
    using arg_cong [OF wf_mset [OF assms], of size] by simp
  then show ?thesis
    using wf_edgeC [OF assms] by (simp add: all_edges_def length_concat comp_def)
qed

lemma wf_counts_agree:
  assumes "wf_Digraph g"
  shows "counts_agree g"
  using wf_vertexC [OF assms] wf_distinct [OF assms] wf_dom [OF assms] wf_edgeC_sum [OF assms]
  by (simp add: counts_agree_def vertexCount_def edgeCount_def vertices_def
      distinct_card)

text \<open>
  As long as no object is used after it was moved from, every state satisfies the three
  invariants.
\<close>

lemma invariants_unless_moved_from:
  "reachable_graph False g \<Longrightarrow> endpoints_present g \<and> no_duplicate_pair g \<and> counts_agree g"
  using reachable_wf [of g] wf_endpoints_present [of g] wf_no_duplicate_pair [of g]
    wf_counts_agree [of g]
  by blast

lemma invariants_unless_moved_from_example:
  "reachable_graph False (snd (addEdge 1 2 (5 :: nat) (snd (addVertex 2 ''b''
      (snd (addVertex 1 ''a'' (Digraph_empty :: (string, nat) Digraph))))))) \<and>
   endpoints_present (snd (addEdge 1 2 (5 :: nat) (snd (addVertex 2 ''b''
      (snd (addVertex 1 ''a'' (Digraph_empty :: (string, nat) Digraph))))))) \<and>
   no_duplicate_pair (snd (addEdge 1 2 (5 :: nat) (snd (addVertex 2 ''b''
      (snd (addVertex 1 ''a'' (Digraph_empty :: (string, nat) Digraph))))))) \<and>
   counts_agree (snd (addEdge 1 2 (5 :: nat) (snd (addVertex 2 ''b''
      (snd (addVertex 1 ''a'' (Digraph_empty :: (string, nat) Digraph)))))))"
proof -
  let ?g = "snd (addEdge 1 2 (5 :: nat) (snd (addVertex 2 ''b''
      (snd (addVertex 1 ''a'' (Digraph_empty :: (string, nat) Digraph))))))"
  have r: "reachable_graph False ?g"
    by (intro r_addEdge r_addVertex r_default)
  from r invariants_unless_moved_from [OF r] show ?thesis by simp
qed

text \<open>
  C6. After every public operation the graph is to satisfy the three structural
  invariants, the third being that \<open>vertexCount()\<close> is the number of distinct vertex
  numbers and \<open>edgeCount()\<close> the sum of the sizes of the outgoing lists. The move
  constructor and the move assignment break it for their argument: they take its
  containers and leave it its counts. After \<open>addVertex(1, "a")\<close> on an empty graph and
  a move out of that graph, the graph reports \<open>vertexCount() = 1\<close> and has no vertex.
\<close>

theorem moved_from_graph_keeps_counts:
  "reachable_graph True
     (snd (Digraph_move (snd (addVertex 1 ''a'' (Digraph_empty :: (string, nat) Digraph))))) \<and>
   vertexCount
     (snd (Digraph_move (snd (addVertex 1 ''a'' (Digraph_empty :: (string, nat) Digraph))))) = 1 \<and>
   vertices
     (snd (Digraph_move (snd (addVertex 1 ''a'' (Digraph_empty :: (string, nat) Digraph))))) = [] \<and>
   \<not> counts_agree
     (snd (Digraph_move (snd (addVertex 1 ''a'' (Digraph_empty :: (string, nat) Digraph))))) \<and>
   snd (Digraph_move_assign False (snd (addVertex 1 ''a'' (Digraph_empty :: (string, nat) Digraph)))
     Digraph_empty) =
     snd (Digraph_move (snd (addVertex 1 ''a'' (Digraph_empty :: (string, nat) Digraph))))"
proof -
  let ?d = "snd (addVertex 1 ''a'' (Digraph_empty :: (string, nat) Digraph))"
  have "reachable_graph True ?d" by (intro r_addVertex r_default)
  then have r: "reachable_graph True (snd (Digraph_move ?d))" by (intro r_moved_from) simp_all
  have c: "vertexCount (snd (Digraph_move ?d)) = 1"
    by (simp add: Digraph_move_def vertexCount_def addVertex_def findVertexNotExist_def
        Digraph_empty_def)
  have v: "vertices (snd (Digraph_move ?d)) = []"
    by (simp add: Digraph_move_def vertices_def)
  from c v have n: "\<not> counts_agree (snd (Digraph_move ?d))"
    by (simp add: counts_agree_def)
  have a: "snd (Digraph_move_assign False ?d Digraph_empty) = snd (Digraph_move ?d)"
    by (simp add: Digraph_move_assign_source)
  show ?thesis by (intro conjI r c v n a)
qed

section \<open>Removing a vertex of the graph\<close>

lemma edgeInfo_scan_filter:
  "\<forall>it\<in>set es. toVertex it = b \<longrightarrow> keep it \<Longrightarrow>
     edgeInfo_scan b (filter keep es) = edgeInfo_scan b es"
  by (induction es) auto

lemma concat_map_filter_empty:
  "\<forall>x\<in>set xs. \<not> P x \<longrightarrow> f x = [] \<Longrightarrow> concat (map f (filter P xs)) = concat (map f xs)"
  by (induction xs) auto

lemma length_filter_neq:
  "distinct xs \<Longrightarrow> x \<in> set xs \<Longrightarrow> int (length (filter (\<lambda>y. y \<noteq> x) xs)) = int (length xs) - 1"
proof (induction xs)
  case Nil
  then show ?case by simp
next
  case (Cons y ys)
  show ?case
  proof (cases "y = x")
    case True
    with Cons.prems have "filter (\<lambda>z. z \<noteq> x) ys = ys" by (auto simp: filter_id_conv)
    with True show ?thesis by simp
  next
    case False
    with Cons show ?thesis by simp
  qed
qed

lemma size_filter_mset_list: "size (filter_mset P (mset xs)) = length (filter P xs)"
  by (simp flip: mset_filter)

text \<open>The edges of the graph that touch \<open>vertex\<close>, as \<open>edges()\<close> lists them.\<close>

definition incident :: "int \<Rightarrow> int \<times> int \<Rightarrow> bool" where
  "incident vertex p \<longleftrightarrow> fst p = vertex \<or> snd p = vertex"

lemma removeVertex_edgeC:
  assumes "wf_Digraph g"
  shows "edgeC (rebuilt (\<lambda>edge. fromVertex edge \<noteq> vertex \<and> toVertex edge \<noteq> vertex) (g_m g)
                 (filter (\<lambda>ve. ve \<noteq> vertex) (g_v g))) =
         edgeC g - int (length (filter (incident vertex) (g_e g)))"
proof -
  let ?keep = "\<lambda>edge :: 'b DigraphEdge. fromVertex edge \<noteq> vertex \<and> toVertex edge \<noteq> vertex"
  let ?ns = "filter (\<lambda>ve. ve \<noteq> vertex) (g_v g)"
  let ?f = "\<lambda>n. filter ?keep (out_of (g_m g) n)"
  have "\<forall>n\<in>set (g_v g). \<not> n \<noteq> vertex \<longrightarrow> ?f n = []"
    using wf_edge [OF assms] by (auto simp: filter_empty_conv)
  then have "concat (map ?f ?ns) = concat (map ?f (g_v g))"
    by (rule concat_map_filter_empty)
  also have "\<dots> = filter ?keep (all_edges g)"
    by (simp add: all_edges_def filter_concat comp_def)
  finally have kept: "concat (map ?f ?ns) = filter ?keep (all_edges g)" .
  have "length (filter (incident vertex) (g_e g)) =
          size (filter_mset (incident vertex) (mset (g_e g)))"
    by (simp flip: mset_filter)
  also have "\<dots> = size (filter_mset (incident vertex) (mset (map edge_pair (all_edges g))))"
    by (simp only: wf_mset [OF assms])
  also have "\<dots> = length (filter (incident vertex) (map edge_pair (all_edges g)))"
    by (rule size_filter_mset_list)
  also have "\<dots> = length (filter (\<lambda>edge. \<not> ?keep edge) (all_edges g))"
    by (simp add: filter_map comp_def incident_def edge_pair_def)
  finally have gone: "length (filter (incident vertex) (g_e g)) =
      length (filter (\<lambda>edge. \<not> ?keep edge) (all_edges g))" .
  have "length (g_e g) = length (all_edges g)"
    using arg_cong [OF wf_mset [OF assms], of size] by simp
  also have "\<dots> = length (filter ?keep (all_edges g)) +
      length (filter (\<lambda>edge. \<not> ?keep edge) (all_edges g))"
    by (rule sum_length_filter_compl [symmetric])
  finally have "int (length (filter ?keep (all_edges g))) =
      int (length (g_e g)) - int (length (filter (incident vertex) (g_e g)))"
    using gone by simp
  then show ?thesis
    using wf_edgeC [OF assms] kept by (simp add: rebuilt_def)
qed

lemma edgeInfo_rebuilt:
  assumes "wf_Digraph g" and "a \<noteq> vertex" and "b \<noteq> vertex"
  shows "edgeInfo a b (rebuilt (\<lambda>edge. fromVertex edge \<noteq> vertex \<and> toVertex edge \<noteq> vertex)
                 (g_m g) (filter (\<lambda>ve. ve \<noteq> vertex) (g_v g))) = edgeInfo a b g"
proof (cases "a \<in> set (g_v g) \<and> b \<in> set (g_v g)")
  case False
  with assms(2,3) show ?thesis by (auto simp: edgeInfo_def VertexExist_iff)
next
  case True
  with wf_lookup [OF assms(1)] obtain dv where dv: "g_m g a = Some dv" by blast
  have "\<forall>it\<in>set (edges dv). toVertex it = b \<longrightarrow> fromVertex it \<noteq> vertex \<and> toVertex it \<noteq> vertex"
    using wf_edge [OF assms(1), of a] True dv assms(2,3) by (auto simp: out_of_Some)
  then have "edgeInfo_scan b (filter (\<lambda>edge. fromVertex edge \<noteq> vertex \<and> toVertex edge \<noteq> vertex)
      (edges dv)) = edgeInfo_scan b (edges dv)"
    by (rule edgeInfo_scan_filter)
  with True dv assms(2,3) show ?thesis
    by (simp add: edgeInfo_def VertexExist_iff rebuilt_def)
qed

lemma vertexInfo_rebuilt:
  "a \<noteq> vertex \<Longrightarrow>
     vertexInfo a (rebuilt keep (g_m g) (filter (\<lambda>ve. ve \<noteq> vertex) (g_v g))) = vertexInfo a g"
  by (auto simp: vertexInfo_def VertexExist_iff rebuilt_def split: option.splits)

lemma set_e_rebuilt:
  assumes "wf_Digraph g"
  shows "set (g_e (rebuilt (\<lambda>edge. fromVertex edge \<noteq> vertex \<and> toVertex edge \<noteq> vertex)
                 (g_m g) (filter (\<lambda>ve. ve \<noteq> vertex) (g_v g)))) =
         {p \<in> set (g_e g). \<not> incident vertex p}"
proof -
  have "set (g_e (rebuilt (\<lambda>edge. fromVertex edge \<noteq> vertex \<and> toVertex edge \<noteq> vertex)
                 (g_m g) (filter (\<lambda>ve. ve \<noteq> vertex) (g_v g)))) =
        {(n, toVertex it) | n it. n \<in> set (g_v g) \<and> it \<in> set (out_of (g_m g) n) \<and>
           n \<noteq> vertex \<and> toVertex it \<noteq> vertex}"
    using wf_edge [OF assms]
    by (fastforce simp: rebuilt_def edge_pair_def image_iff)
  also have "\<dots> = {p \<in> set (g_e g). \<not> incident vertex p}"
    unfolding wf_set_e [OF assms] by (auto simp: incident_def)
  finally show ?thesis .
qed

text \<open>
  C7. For a vertex of the graph, \<open>removeVertex\<close> returns normally; afterwards the vertex
  count is one less, the edge count is less by the number of edges that had the vertex
  as source or destination, the vertex is gone and the others are still there, the
  remaining pairs are exactly the pairs that did not touch the vertex, and \<open>edgeInfo\<close>
  and \<open>vertexInfo\<close> answer as before for everything that does not involve the vertex.
\<close>

theorem removeVertex_removes_incident_edges:
  assumes "wf_Digraph g" and "vertex \<in> set (vertices g)"
  shows "\<exists>g'. removeVertex vertex g = (None, g') \<and>
           vertexCount g' = vertexCount g - 1 \<and>
           edgeCount g' = edgeCount g - int (length (filter (incident vertex) (edges_all g))) \<and>
           set (vertices g') = set (vertices g) - {vertex} \<and>
           set (edges_all g') = {p \<in> set (edges_all g). \<not> incident vertex p} \<and>
           (\<forall>a b. a \<noteq> vertex \<and> b \<noteq> vertex \<longrightarrow> edgeInfo a b g' = edgeInfo a b g) \<and>
           (\<forall>a. a \<noteq> vertex \<longrightarrow> vertexInfo a g' = vertexInfo a g)"
proof -
  let ?g' = "rebuilt (\<lambda>edge. fromVertex edge \<noteq> vertex \<and> toVertex edge \<noteq> vertex)
                 (g_m g) (filter (\<lambda>ve. ve \<noteq> vertex) (g_v g))"
  have "removeVertex vertex g = (None, ?g')" by (rule removeVertex_run [OF assms(1)])
  moreover have "vertexCount ?g' = vertexCount g - 1"
    using length_filter_neq [OF wf_distinct [OF assms(1)], of vertex] assms(2)
      wf_vertexC [OF assms(1)]
    by (simp add: vertexCount_def vertices_def rebuilt_def)
  moreover have "edgeCount ?g' =
      edgeCount g - int (length (filter (incident vertex) (edges_all g)))"
    using removeVertex_edgeC [OF assms(1)] by (simp add: edgeCount_def edges_all_def)
  moreover have "set (vertices ?g') = set (vertices g) - {vertex}"
    by (auto simp: vertices_def)
  moreover have "set (edges_all ?g') = {p \<in> set (edges_all g). \<not> incident vertex p}"
    using set_e_rebuilt [OF assms(1)] by (simp add: edges_all_def)
  moreover have "\<forall>a b. a \<noteq> vertex \<and> b \<noteq> vertex \<longrightarrow> edgeInfo a b ?g' = edgeInfo a b g"
    using edgeInfo_rebuilt [OF assms(1)] by simp
  moreover have "\<forall>a. a \<noteq> vertex \<longrightarrow> vertexInfo a ?g' = vertexInfo a g"
    by (simp add: vertexInfo_rebuilt)
  ultimately show ?thesis by blast
qed

theorem removeVertex_removes_incident_edges_witness:
  "wf_Digraph (snd (addEdge 2 1 (7 :: nat) (snd (addEdge 1 2 (5 :: nat) (snd (addVertex 2 ''b''
      (snd (addVertex 1 ''a'' (Digraph_empty :: (string, nat) Digraph))))))))) \<and>
   2 \<in> set (vertices (snd (addEdge 2 1 (7 :: nat) (snd (addEdge 1 2 (5 :: nat)
      (snd (addVertex 2 ''b'' (snd (addVertex 1 ''a''
        (Digraph_empty :: (string, nat) Digraph)))))))))) \<and>
   (\<exists>g'. removeVertex 2 (snd (addEdge 2 1 (7 :: nat) (snd (addEdge 1 2 (5 :: nat)
      (snd (addVertex 2 ''b'' (snd (addVertex 1 ''a''
        (Digraph_empty :: (string, nat) Digraph))))))))) = (None, g') \<and>
      vertexCount g' = 1 \<and> edgeCount g' = 0)"
proof -
  let ?g = "snd (addEdge 2 1 (7 :: nat) (snd (addEdge 1 2 (5 :: nat) (snd (addVertex 2 ''b''
      (snd (addVertex 1 ''a'' (Digraph_empty :: (string, nat) Digraph))))))))"
  have w: "wf_Digraph ?g"
    by (intro wf_addEdge wf_addVertex wf_Digraph_empty)
  have g: "?g = \<lparr>g_m = [1 \<mapsto> \<lparr>vinfo = ''a'', edges = [\<lparr>fromVertex = 1, toVertex = 2, einfo = 5\<rparr>]\<rparr>,
                       2 \<mapsto> \<lparr>vinfo = ''b'', edges = [\<lparr>fromVertex = 2, toVertex = 1, einfo = 7\<rparr>]\<rparr>],
                g_v = [1, 2], g_e = [(1, 2), (2, 1)], vertexC = 2, edgeC = 2\<rparr>"
    by (simp add: addEdge_def addVertex_def findVertex_def findVertexNotExist_def
        Digraph_empty_def fun_upd_twist)
  have v: "2 \<in> set (vertices ?g)" unfolding g by (simp add: vertices_def)
  have c: "vertexCount ?g = 2" "edgeCount ?g = 2"
    "filter (incident 2) (edges_all ?g) = [(1, 2), (2, 1)]"
    unfolding g by (simp_all add: vertexCount_def edgeCount_def edges_all_def incident_def)
  from removeVertex_removes_incident_edges [OF w v] c
  have "\<exists>g'. removeVertex 2 ?g = (None, g') \<and> vertexCount g' = 1 \<and> edgeCount g' = 0"
    by auto
  with w v show ?thesis by blast
qed

section \<open>Copies are independent\<close>

lemma call_other: "other \<noteq> this \<Longrightarrow> snd (call this c s) other = s other"
  by (simp add: call_def split: prod.splits)

lemma calls_other: "other \<noteq> this \<Longrightarrow> calls this cs s other = s other"
  by (induction cs arbitrary: s) (simp_all add: call_other)

lemma call_eq:
  "call this c s = (fst (mutate c (s this)), s(this := snd (mutate c (s this))))"
  unfolding call_def by (cases "mutate c (s this)") (auto simp: fun_eq_iff)

lemma copy_vertices_eq:
  "this \<noteq> d \<Longrightarrow>
     copy_vertices this d ns s =
       (fst (addVertices_loop (g_m (s d)) ns (s this)),
        s(this := snd (addVertices_loop (g_m (s d)) ns (s this))))"
proof (induction ns arbitrary: s)
  case Nil
  show ?case by simp
next
  case (Cons n ns)
  show ?case
  proof (cases "g_m (s d) n")
    case None
    then show ?thesis by simp
  next
    case (Some dv)
    obtain r g1 where step: "addVertex n (vinfo dv) (s this) = (r, g1)"
      by (cases "addVertex n (vinfo dv) (s this)")
    show ?thesis
    proof (cases r)
      case (Some err)
      have L: "copy_vertices this d (n # ns) s = (Some err, s(this := g1))"
        using Some step \<open>g_m (s d) n = Some dv\<close> by (simp add: call_eq)
      have R: "addVertices_loop (g_m (s d)) (n # ns) (s this) = (Some err, g1)"
        using Some step \<open>g_m (s d) n = Some dv\<close> by simp
      show ?thesis by (simp only: L R fst_conv snd_conv)
    next
      case None
      let ?s = "s(this := g1)"
      have "copy_vertices this d ns ?s =
          (fst (addVertices_loop (g_m (?s d)) ns (?s this)),
           ?s(this := snd (addVertices_loop (g_m (?s d)) ns (?s this))))"
        by (rule Cons.IH [OF Cons.prems])
      with Cons.prems have rest: "copy_vertices this d ns (s(this := g1)) =
          (fst (addVertices_loop (g_m (s d)) ns g1),
           s(this := snd (addVertices_loop (g_m (s d)) ns g1)))"
        by simp
      have L: "copy_vertices this d (n # ns) s = copy_vertices this d ns (s(this := g1))"
        using None step \<open>g_m (s d) n = Some dv\<close> by (simp add: call_eq)
      have R: "addVertices_loop (g_m (s d)) (n # ns) (s this) =
          addVertices_loop (g_m (s d)) ns g1"
        using None step \<open>g_m (s d) n = Some dv\<close> by simp
      show ?thesis by (simp only: L R rest)
    qed
  qed
qed

lemma copy_edges_inner_eq:
  "copy_edges_inner this es s =
     (fst (addEdges_inner (\<lambda>edge. True) es (s this)),
      s(this := snd (addEdges_inner (\<lambda>edge. True) es (s this))))"
proof (induction es arbitrary: s)
  case Nil
  show ?case by simp
next
  case (Cons edge rest)
  obtain r g1 where step:
    "addEdge (fromVertex edge) (toVertex edge) (einfo edge) (s this) = (r, g1)"
    by (cases "addEdge (fromVertex edge) (toVertex edge) (einfo edge) (s this)")
  show ?case
  proof (cases r)
    case (Some err)
    have L: "copy_edges_inner this (edge # rest) s = (Some err, s(this := g1))"
      using Some step by (simp add: call_eq)
    have R: "addEdges_inner (\<lambda>edge. True) (edge # rest) (s this) = (Some err, g1)"
      using Some step by simp
    show ?thesis by (simp only: L R fst_conv snd_conv)
  next
    case None
    let ?s = "s(this := g1)"
    have "copy_edges_inner this rest ?s =
        (fst (addEdges_inner (\<lambda>edge. True) rest (?s this)),
         ?s(this := snd (addEdges_inner (\<lambda>edge. True) rest (?s this))))"
      by (rule Cons.IH)
    then have tail: "copy_edges_inner this rest (s(this := g1)) =
        (fst (addEdges_inner (\<lambda>edge. True) rest g1),
         s(this := snd (addEdges_inner (\<lambda>edge. True) rest g1)))"
      by simp
    have L: "copy_edges_inner this (edge # rest) s =
        copy_edges_inner this rest (s(this := g1))"
      using None step by (simp add: call_eq)
    have R: "addEdges_inner (\<lambda>edge. True) (edge # rest) (s this) =
        addEdges_inner (\<lambda>edge. True) rest g1"
      using None step by simp
    show ?thesis by (simp only: L R tail)
  qed
qed

lemma copy_edges_eq:
  "this \<noteq> d \<Longrightarrow>
     copy_edges this d ns s =
       (fst (addEdges_loop (\<lambda>edge. True) (g_m (s d)) ns (s this)),
        s(this := snd (addEdges_loop (\<lambda>edge. True) (g_m (s d)) ns (s this))))"
proof (induction ns arbitrary: s)
  case Nil
  show ?case by simp
next
  case (Cons n ns)
  show ?case
  proof (cases "g_m (s d) n")
    case None
    then show ?thesis by simp
  next
    case (Some dv)
    obtain r g1 where step: "addEdges_inner (\<lambda>edge. True) (edges dv) (s this) = (r, g1)"
      by (cases "addEdges_inner (\<lambda>edge. True) (edges dv) (s this)")
    show ?thesis
    proof (cases r)
      case (Some err)
      have L: "copy_edges this d (n # ns) s = (Some err, s(this := g1))"
        using Some step \<open>g_m (s d) n = Some dv\<close> by (simp add: copy_edges_inner_eq)
      have R: "addEdges_loop (\<lambda>edge. True) (g_m (s d)) (n # ns) (s this) = (Some err, g1)"
        using Some step \<open>g_m (s d) n = Some dv\<close> by simp
      show ?thesis by (simp only: L R fst_conv snd_conv)
    next
      case None
      let ?s = "s(this := g1)"
      have "copy_edges this d ns ?s =
          (fst (addEdges_loop (\<lambda>edge. True) (g_m (?s d)) ns (?s this)),
           ?s(this := snd (addEdges_loop (\<lambda>edge. True) (g_m (?s d)) ns (?s this))))"
        by (rule Cons.IH [OF Cons.prems])
      with Cons.prems have rest: "copy_edges this d ns (s(this := g1)) =
          (fst (addEdges_loop (\<lambda>edge. True) (g_m (s d)) ns g1),
           s(this := snd (addEdges_loop (\<lambda>edge. True) (g_m (s d)) ns g1)))"
        by simp
      have L: "copy_edges this d (n # ns) s = copy_edges this d ns (s(this := g1))"
        using None step \<open>g_m (s d) n = Some dv\<close> by (simp add: copy_edges_inner_eq)
      have R: "addEdges_loop (\<lambda>edge. True) (g_m (s d)) (n # ns) (s this) =
          addEdges_loop (\<lambda>edge. True) (g_m (s d)) ns g1"
        using None step \<open>g_m (s d) n = Some dv\<close> by simp
      show ?thesis by (simp only: L R rest)
    qed
  qed
qed

text \<open>
  For two different objects the loops on the store do what the loops on the members of
  \<open>this\<close> do with the members of \<open>d\<close> as they were at the start.
\<close>

lemma copy_construct_eq:
  assumes "this \<noteq> d"
  shows "copy_construct this d s =
           (fst (Digraph_copy (s d)), s(this := snd (Digraph_copy (s d))))"
proof -
  obtain r g1 where first: "addVertices_loop (g_m (s d)) (g_v (s d)) Digraph_empty = (r, g1)"
    by (cases "addVertices_loop (g_m (s d)) (g_v (s d)) (Digraph_empty :: ('a, 'b) Digraph)")
  show ?thesis
  proof (cases r)
    case (Some err)
    with first assms show ?thesis
      by (simp add: copy_construct_def Digraph_copy_def copy_vertices_eq)
  next
    case None
    with first assms show ?thesis
      by (simp add: copy_construct_def Digraph_copy_def copy_vertices_eq copy_edges_eq)
  qed
qed

lemma copy_assign_eq:
  assumes "this \<noteq> d"
  shows "copy_assign this d s =
           (fst (Digraph_copy (s d)), s(this := snd (Digraph_copy (s d))))"
proof -
  obtain r g1 where first: "addVertices_loop (g_m (s d)) (g_v (s d)) Digraph_empty = (r, g1)"
    by (cases "addVertices_loop (g_m (s d)) (g_v (s d)) (Digraph_empty :: ('a, 'b) Digraph)")
  show ?thesis
  proof (cases r)
    case (Some err)
    with first assms show ?thesis
      by (simp add: copy_assign_def Digraph_copy_def copy_vertices_eq reset_is_empty)
  next
    case None
    with first assms show ?thesis
      by (simp add: copy_assign_def Digraph_copy_def copy_vertices_eq copy_edges_eq
          reset_is_empty)
  qed
qed

lemma rebuilt_all:
  assumes "wf_Digraph d"
  shows "rebuilt (\<lambda>edge. True) (g_m d) (g_v d) = d\<lparr>g_e := map edge_pair (all_edges d)\<rparr>"
proof -
  have "g_m (rebuilt (\<lambda>edge. True) (g_m d) (g_v d)) = g_m d"
    using wf_dom [OF assms] by (auto simp: rebuilt_def fun_eq_iff map_option_case split: option.splits)
  moreover have "edgeC (rebuilt (\<lambda>edge. True) (g_m d) (g_v d)) = edgeC d"
    using wf_edgeC_sum [OF assms] by (simp add: rebuilt_def length_concat comp_def)
  moreover have "g_e (rebuilt (\<lambda>edge. True) (g_m d) (g_v d)) = map edge_pair (all_edges d)"
    by (simp add: g_e_rebuilt all_edges_def)
  moreover have "vertexC (rebuilt (\<lambda>edge. True) (g_m d) (g_v d)) = vertexC d"
    using wf_vertexC [OF assms] by (simp add: rebuilt_def)
  ultimately show ?thesis by (simp add: Digraph.equality)
qed

lemma Digraph_copy_contents:
  assumes "wf_Digraph d"
  shows "Digraph_copy d = (None, d\<lparr>g_e := map edge_pair (all_edges d)\<rparr>)"
  using Digraph_copy_run(1) [OF assms] rebuilt_all [OF assms] by simp

lemma same_contents:
  assumes "wf_Digraph d" and "g = d\<lparr>g_e := map edge_pair (all_edges d)\<rparr>"
  shows "vertexCount g = vertexCount d \<and> edgeCount g = edgeCount d \<and>
         vertices g = vertices d \<and> mset (edges_all g) = mset (edges_all d) \<and>
         (\<forall>n. vertexInfo n g = vertexInfo n d) \<and> (\<forall>x y. edgeInfo x y g = edgeInfo x y d)"
  using wf_mset [OF assms(1)] unfolding assms(2)
  by (simp add: vertexCount_def edgeCount_def vertices_def edges_all_def vertexInfo_def
      edgeInfo_def VertexExist_iff)

text \<open>
  C8. Let \<open>B\<close> at address \<open>b\<close> be constructed or assigned as a copy of \<open>A\<close> at another
  address \<open>a\<close>. Then \<open>B\<close> has the counts, vertices, pairs and payloads of \<open>A\<close>, and
  whatever sequence of \<open>addVertex\<close>, \<open>addEdge\<close>, \<open>removeVertex\<close> and \<open>removeEdge\<close> calls is
  made on \<open>B\<close>, the members of \<open>A\<close> stay what they were, and the other way round.
\<close>

theorem copy_is_independent:
  assumes "wf_Digraph (s a)" and "a \<noteq> b"
    and "s1 = snd (copy_construct b a s) \<or> s1 = snd (copy_assign b a s)"
  shows "vertexCount (s1 b) = vertexCount (s a) \<and> edgeCount (s1 b) = edgeCount (s a) \<and>
         vertices (s1 b) = vertices (s a) \<and> mset (edges_all (s1 b)) = mset (edges_all (s a)) \<and>
         (\<forall>n. vertexInfo n (s1 b) = vertexInfo n (s a)) \<and>
         (\<forall>x y. edgeInfo x y (s1 b) = edgeInfo x y (s a)) \<and>
         s1 a = s a \<and> calls b cs s1 a = s a \<and> calls a cs' s1 b = s1 b"
proof -
  from assms(2) have ba: "b \<noteq> a" by simp
  have "snd (copy_assign b a s) = snd (copy_construct b a s)"
    by (simp add: copy_assign_eq [OF ba] copy_construct_eq [OF ba])
  with assms(3) have s1: "s1 = s(b := (s a)\<lparr>g_e := map edge_pair (all_edges (s a))\<rparr>)"
    by (auto simp: copy_construct_eq [OF ba] Digraph_copy_contents [OF assms(1)])
  then have b: "s1 b = (s a)\<lparr>g_e := map edge_pair (all_edges (s a))\<rparr>" by simp
  from s1 assms(2) have a: "s1 a = s a" by simp
  from same_contents [OF assms(1) b] a calls_other [of a b cs s1] calls_other [of b a cs' s1]
    assms(2)
  show ?thesis by simp
qed

theorem copy_is_independent_witness:
  "wf_Digraph (((\<lambda>n. Digraph_empty)(0 := snd (addVertex 1 ''a''
      (Digraph_empty :: (string, nat) Digraph)))) (0 :: nat)) \<and>
   (0 :: nat) \<noteq> 1 \<and>
   vertexCount (snd (copy_construct 1 0 ((\<lambda>n. Digraph_empty)(0 := snd (addVertex 1 ''a''
      (Digraph_empty :: (string, nat) Digraph))))) 1) = 1 \<and>
   calls 1 [AddVertex 2 ''b'', RemoveVertex 1]
     (snd (copy_construct 1 0 ((\<lambda>n. Digraph_empty)(0 := snd (addVertex 1 ''a''
        (Digraph_empty :: (string, nat) Digraph)))))) 0 =
     snd (addVertex 1 ''a'' (Digraph_empty :: (string, nat) Digraph)) \<and>
   calls 0 [AddVertex 2 ''b'']
     (snd (copy_construct 1 0 ((\<lambda>n. Digraph_empty)(0 := snd (addVertex 1 ''a''
        (Digraph_empty :: (string, nat) Digraph)))))) 1 =
     snd (copy_construct 1 0 ((\<lambda>n. Digraph_empty)(0 := snd (addVertex 1 ''a''
        (Digraph_empty :: (string, nat) Digraph))))) 1"
proof -
  let ?A = "snd (addVertex 1 ''a'' (Digraph_empty :: (string, nat) Digraph))"
  let ?s = "(\<lambda>n :: nat. (Digraph_empty :: (string, nat) Digraph))(0 := ?A)"
  have w: "wf_Digraph (?s 0)" by (simp add: wf_addVertex wf_Digraph_empty)
  have ne: "(0 :: nat) \<noteq> 1" by simp
  have c: "vertexCount (?s 0) = 1"
    by (simp add: vertexCount_def addVertex_def findVertexNotExist_def Digraph_empty_def)
  have d: "snd (copy_construct 1 0 ?s) = snd (copy_construct 1 0 ?s) \<or>
      snd (copy_construct 1 0 ?s) = snd (copy_assign 1 0 ?s)"
    by simp
  from copy_is_independent [where s = ?s and a = 0 and b = 1
      and ?s1.0 = "snd (copy_construct 1 0 ?s)"
      and cs = "[AddVertex 2 ''b'', RemoveVertex 1]" and cs' = "[AddVertex 2 ''b'']", OF w ne d]
    c w
  show ?thesis by simp
qed

section \<open>The arithmetic of doubles\<close>

text \<open>A number is a double when rounding leaves it as it is.\<close>

definition is_double :: "real \<Rightarrow> bool" where
  "is_double x \<longleftrightarrow> dbl_round x = x"

lemma round_even_of_int: "round_even (of_int k) = k"
  by (simp add: round_even_def)

lemma round_even_ge: "of_int k \<le> r \<Longrightarrow> k \<le> round_even r"
proof -
  assume "of_int k \<le> r"
  then have "k \<le> \<lfloor>r\<rfloor>" by (simp add: le_floor_iff)
  then show ?thesis by (simp add: round_even_def)
qed

lemma round_even_le: "r \<le> of_int k \<Longrightarrow> round_even r \<le> k"
proof (cases "r = of_int k")
  case True
  then show ?thesis by (simp add: round_even_of_int)
next
  case False
  assume "r \<le> of_int k"
  with False have "r < of_int k" by simp
  then have "\<lfloor>r\<rfloor> < k" by (simp add: floor_less_iff)
  then show ?thesis by (simp add: round_even_def)
qed

lemma exponent_from_range: "- 1022 \<le> exponent_from k x \<and> exponent_from k x \<le> int k - 1022"
  by (induction k) auto

lemma exponent_from_lower: "- 1022 < exponent_from k x \<Longrightarrow> 2 powi (exponent_from k x) \<le> \<bar>x\<bar>"
  by (induction k) (auto split: if_splits)

lemma exponent_from_upper: "\<bar>x\<bar> < 2 powi (int k - 1021) \<Longrightarrow> \<bar>x\<bar> < 2 powi (exponent_from k x + 1)"
proof (induction k)
  case 0
  then show ?case by simp
next
  case (Suc k)
  show ?case
  proof (cases "2 powi (int k - 1021) \<le> \<bar>x\<bar>")
    case True
    have "int (Suc k) - 1021 = int k - 1021 + 1" by simp
    with Suc.prems True show ?thesis by simp
  next
    case False
    with Suc.IH show ?thesis by simp
  qed
qed

lemma exponent_from_greatest:
  "- 1021 \<le> e \<Longrightarrow> e \<le> int k - 1022 \<Longrightarrow> 2 powi e \<le> \<bar>x\<bar> \<Longrightarrow> e \<le> exponent_from k x"
proof (induction k)
  case 0
  then show ?case by simp
next
  case (Suc k)
  show ?case
  proof (cases "2 powi (int k - 1021) \<le> \<bar>x\<bar>")
    case True
    with Suc.prems show ?thesis by simp
  next
    case False
    with Suc.prems(3) have "(2 :: real) powi e < 2 powi (int k - 1021)" by simp
    then have "e < int k - 1021"
      by (metis less_le_not_le linorder_not_less one_le_numeral power_int_increasing)
    with Suc.IH [OF Suc.prems(1) _ Suc.prems(3)] False show ?thesis by simp
  qed
qed

lemma dbl_exponent_range: "- 1022 \<le> dbl_exponent x" "dbl_exponent x \<le> 1023"
  using exponent_from_range [of 2045 x] by (simp_all add: dbl_exponent_def)

lemma dbl_exponent_lower: "- 1022 < dbl_exponent x \<Longrightarrow> 2 powi (dbl_exponent x) \<le> \<bar>x\<bar>"
  unfolding dbl_exponent_def by (rule exponent_from_lower)

lemma dbl_exponent_upper: "\<bar>x\<bar> < 2 ^ 1024 \<Longrightarrow> \<bar>x\<bar> < 2 powi (dbl_exponent x + 1)"
  using exponent_from_upper [of x 2045] by (simp add: dbl_exponent_def)

lemma dbl_exponent_greatest:
  "- 1021 \<le> e \<Longrightarrow> e \<le> 1023 \<Longrightarrow> 2 powi e \<le> \<bar>x\<bar> \<Longrightarrow> e \<le> dbl_exponent x"
  using exponent_from_greatest [of e 2045 x] by (simp add: dbl_exponent_def)

lemma dbl_exponent_mono: "\<bar>x\<bar> \<le> \<bar>y\<bar> \<Longrightarrow> dbl_exponent x \<le> dbl_exponent y"
proof (cases "- 1022 < dbl_exponent x")
  case True
  assume "\<bar>x\<bar> \<le> \<bar>y\<bar>"
  with dbl_exponent_lower [OF True] have "2 powi (dbl_exponent x) \<le> \<bar>y\<bar>" by simp
  with True dbl_exponent_range(2) [of x] dbl_exponent_greatest [of "dbl_exponent x" y]
  show ?thesis by simp
next
  case False
  with dbl_exponent_range(1) [of x] dbl_exponent_range(1) [of y] show ?thesis by simp
qed

lemma dbl_round_multiple:
  assumes "x / 2 powi (dbl_exponent x - 52) = of_int k"
  shows "dbl_round x = (if DBL_MAX < \<bar>x\<bar> then sgn x * dbl_inf else x)"
proof -
  define q :: real where "q = 2 powi (dbl_exponent x - 52)"
  have q: "0 < q" by (simp add: q_def zero_less_power_int)
  from assms q have x: "q * of_int k = x" by (simp add: q_def field_simps)
  have "round_even (x / q) = k" using assms by (simp add: q_def round_even_of_int)
  then have "dbl_round x = (if DBL_MAX < \<bar>q * of_int k\<bar> then sgn x * dbl_inf else q * of_int k)"
    by (simp add: dbl_round_def Let_def q_def)
  then show ?thesis by (simp only: x)
qed

lemma dbl_round_exact:
  assumes "x / 2 powi (dbl_exponent x - 52) = of_int k" and "\<bar>x\<bar> \<le> DBL_MAX"
  shows "dbl_round x = x"
  using dbl_round_multiple [OF assms(1)] assms(2) by simp

lemma dbl_round_at:
  "dbl_exponent x = e \<Longrightarrow> round_even (x / 2 powi (e - 52)) = k \<Longrightarrow>
     \<bar>2 powi (e - 52) * of_int k\<bar> \<le> DBL_MAX \<Longrightarrow> dbl_round x = 2 powi (e - 52) * of_int k"
  by (simp add: dbl_round_def Let_def)

lemma dbl_round_scaled:
  assumes m: "\<bar>m\<bar> \<le> 2 ^ 53" and j: "- 1074 \<le> j"
    and small: "\<bar>of_int m * 2 powi j\<bar> \<le> DBL_MAX"
  shows "dbl_round (of_int m * 2 powi j) = of_int m * 2 powi j"
proof -
  define x :: real where "x = of_int m * 2 powi j"
  define e where "e = dbl_exponent x"
  define q :: real where "q = 2 powi (e - 52)"
  have q: "0 < q" by (simp add: q_def zero_less_power_int)
  have absx: "\<bar>x\<bar> = of_int \<bar>m\<bar> * 2 powi j"
    by (simp add: x_def abs_mult zero_less_power_int)
  have "\<exists>k. x / q = of_int k"
  proof (cases "e - 52 \<le> j")
    case True
    then obtain n where n: "j = (e - 52) + int n"
      by (metis add.commute diff_add_cancel nonneg_int_cases diff_ge_0_iff_ge add_diff_eq)
    have "(2 :: real) powi j = q * 2 ^ n"
      unfolding q_def by (subst n) (simp add: power_int_add power_int_of_nat del: of_int_diff)
    then have "x / q = of_int (m * 2 ^ n)"
      using q by (simp add: x_def)
    then show ?thesis by blast
  next
    case False
    then have lt: "j + 53 \<le> e" by simp
    with j have "- 1022 < e" by simp
    then have "2 powi e \<le> \<bar>x\<bar>" unfolding e_def by (rule dbl_exponent_lower)
    also have "\<bar>x\<bar> \<le> 2 ^ 53 * 2 powi j"
      unfolding absx using m
      by (intro mult_right_mono) (simp_all add: zero_less_power_int less_imp_le)
    also have "\<dots> = 2 powi (j + 53)"
      by (simp add: power_int_add)
    finally have le: "(2 :: real) powi e \<le> 2 powi (j + 53)" .
    have "\<not> j + 53 < e"
    proof
      assume "j + 53 < e"
      then have "(2 :: real) powi (j + 53) < 2 powi e"
        by (rule power_int_strict_increasing) simp
      with le show False by simp
    qed
    with lt have e: "e = j + 53" by simp
    from \<open>2 powi e \<le> \<bar>x\<bar>\<close> \<open>\<bar>x\<bar> \<le> 2 ^ 53 * 2 powi j\<close> \<open>2 ^ 53 * 2 powi j = 2 powi (j + 53)\<close> e
    have "\<bar>x\<bar> = 2 ^ 53 * 2 powi j" by simp
    with absx have "of_int \<bar>m\<bar> * (2 :: real) powi j = 2 ^ 53 * 2 powi j" by simp
    then have "(of_int \<bar>m\<bar> :: real) = 2 ^ 53" by (simp add: zero_less_power_int)
    then have am: "\<bar>m\<bar> = 2 ^ 53" by (metis of_int_eq_iff of_int_numeral of_int_power)
    from e have "e - 52 = j + 1" by simp
    then have "q = 2 powi (j + 1)" by (simp only: q_def)
    also have "\<dots> = 2 powi j * 2" by (simp add: power_int_add)
    finally have qj: "q = 2 powi j * 2" .
    have "x / q = of_int m / 2" by (simp add: x_def qj zero_less_power_int)
    also from am have "m = 2 ^ 53 \<or> m = - (2 ^ 53)" by linarith
    then have "(of_int m :: real) / 2 = of_int (m div 2)" by auto
    finally show ?thesis by blast
  qed
  then obtain k where "x / q = of_int k" ..
  then have "x / 2 powi (dbl_exponent x - 52) = of_int k" by (simp add: q_def e_def)
  moreover from small have "\<bar>x\<bar> \<le> DBL_MAX" by (simp add: x_def)
  ultimately have "dbl_round x = x" by (rule dbl_round_exact)
  then show ?thesis by (simp add: x_def)
qed

lemma dbl_round_int:
  assumes "\<bar>n\<bar> \<le> 2 ^ 53"
  shows "dbl_round (of_int n) = of_int n"
proof -
  have "\<bar>real_of_int n\<bar> \<le> 2 ^ 53" using assms by (metis of_int_abs of_int_le_iff of_int_numeral of_int_power)
  also have "(2 :: real) ^ 53 \<le> DBL_MAX" by (simp add: DBL_MAX_def)
  finally have "\<bar>of_int n * 2 powi 0\<bar> \<le> DBL_MAX" by simp
  from dbl_round_scaled [OF assms _ this] show ?thesis by simp
qed

lemma dbl_round_0: "dbl_round 0 = 0"
  using dbl_round_int [of 0] by simp

lemma dbl_round_DBL_MAX: "dbl_round DBL_MAX = DBL_MAX"
proof -
  have "\<bar>of_int (2 ^ 53 - 1) * 2 powi 971\<bar> \<le> DBL_MAX" by (simp add: DBL_MAX_def)
  from dbl_round_scaled [OF _ _ this] show ?thesis by (simp add: DBL_MAX_def)
qed

lemma dbl_inf_pos: "0 < dbl_inf"
  by (simp add: dbl_inf_def)

lemma DBL_MAX_less_inf: "DBL_MAX < dbl_inf"
  by (simp add: DBL_MAX_def dbl_inf_def)

lemma dbl_exponent_huge: "2 ^ 1023 \<le> \<bar>x\<bar> \<Longrightarrow> dbl_exponent x = 1023"
  using dbl_exponent_greatest [of 1023 x] dbl_exponent_range(2) [of x] by simp

lemma dbl_round_inf: "dbl_round dbl_inf = dbl_inf"
proof -
  have e: "dbl_exponent dbl_inf = 1023" by (rule dbl_exponent_huge) (simp add: dbl_inf_def)
  have "dbl_inf / 2 powi 971 = of_int (2 ^ 53)" by (simp add: dbl_inf_def)
  then have "dbl_inf / 2 powi (dbl_exponent dbl_inf - 52) = of_int (2 ^ 53)"
    by (simp only: e) simp
  from dbl_round_multiple [OF this] DBL_MAX_less_inf dbl_inf_pos show ?thesis by simp
qed

lemma powi_shift: "(2 :: real) powi e = 2 powi (e - int n) * 2 ^ n"
proof -
  have "(2 :: real) powi ((e - int n) + int n) = 2 powi (e - int n) * 2 powi (int n)"
    by (rule power_int_add) simp
  then show ?thesis by (simp add: power_int_of_nat)
qed

lemma dbl_round_nonneg:
  assumes "0 \<le> y"
  shows "0 \<le> dbl_round y"
proof -
  define q :: real where "q = 2 powi (dbl_exponent y - 52)"
  have q: "0 < q" by (simp add: q_def zero_less_power_int)
  from assms q have "of_int 0 \<le> y / q" by simp
  then have "0 \<le> round_even (y / q)" by (rule round_even_ge)
  with q have "0 \<le> q * of_int (round_even (y / q))" by simp
  moreover from assms dbl_inf_pos have "0 \<le> sgn y * dbl_inf" by (simp add: sgn_if)
  ultimately show ?thesis by (simp add: dbl_round_def Let_def q_def)
qed

lemma dbl_round_idem:
  assumes "0 \<le> y"
  shows "dbl_round (dbl_round y) = dbl_round y"
proof -
  define e where "e = dbl_exponent y"
  define q :: real where "q = 2 powi (e - 52)"
  define k where "k = round_even (y / q)"
  have q: "0 < q" by (simp add: q_def zero_less_power_int)
  have rnd: "dbl_round y = (if DBL_MAX < \<bar>q * of_int k\<bar> then sgn y * dbl_inf else q * of_int k)"
    by (simp add: dbl_round_def Let_def q_def e_def k_def)
  from assms q have "of_int 0 \<le> y / q" by simp
  then have k0: "0 \<le> k" unfolding k_def by (rule round_even_ge)
  show ?thesis
  proof (cases "DBL_MAX < \<bar>q * of_int k\<bar>")
    case True
    have "y \<noteq> 0"
    proof
      assume "y = 0"
      then have "k = 0" by (simp add: k_def round_even_def)
      with True show False by (simp add: DBL_MAX_def)
    qed
    with assms have "sgn y = 1" by simp
    with True rnd show ?thesis by (simp add: dbl_round_inf)
  next
    case False
    have "k \<le> 2 ^ 53"
    proof (cases "y < 2 ^ 1024")
      case True
      with assms have "\<bar>y\<bar> < 2 powi (e + 1)" unfolding e_def by (intro dbl_exponent_upper) simp
      also have "(2 :: real) powi (e + 1) = q * 2 ^ 53"
        using powi_shift [of "e + 1" 53] by (simp add: q_def)
      finally have "y / q \<le> of_int (2 ^ 53)" using q assms by (simp add: field_simps)
      then show ?thesis unfolding k_def by (rule round_even_le)
    next
      case large: False
      with assms have "2 ^ 1023 \<le> \<bar>y\<bar>" by simp
      then have "e = 1023" unfolding e_def by (rule dbl_exponent_huge)
      then have qv: "q = 2 ^ 971" by (simp add: q_def)
      from large have "of_int (2 ^ 53) \<le> y / q" by (simp add: qv field_simps)
      then have "2 ^ 53 \<le> k" unfolding k_def by (rule round_even_ge)
      then have "(2 :: real) ^ 53 \<le> of_int k" by (metis of_int_le_iff of_int_numeral of_int_power)
      then have "(2 :: real) ^ 971 * 2 ^ 53 \<le> q * of_int k" by (simp add: qv)
      with False show ?thesis by (simp add: DBL_MAX_def)
    qed
    with k0 have km: "\<bar>k\<bar> \<le> 2 ^ 53" by simp
    have j: "- 1074 \<le> e - 52" using dbl_exponent_range(1) [of y] by (simp add: e_def)
    from False have "\<bar>of_int k * 2 powi (e - 52)\<bar> \<le> DBL_MAX" by (simp add: q_def mult.commute)
    from dbl_round_scaled [OF km j this] have "dbl_round (q * of_int k) = q * of_int k"
      by (simp add: q_def mult.commute)
    with False rnd show ?thesis by simp
  qed
qed

lemma dbl_round_above:
  assumes x: "is_double x" and x0: "0 \<le> x" and xy: "x \<le> y"
  shows "x \<le> dbl_round y"
proof -
  define ey where "ey = dbl_exponent y"
  define qy :: real where "qy = 2 powi (ey - 52)"
  define ky where "ky = round_even (y / qy)"
  define ex where "ex = dbl_exponent x"
  define qx :: real where "qx = 2 powi (ex - 52)"
  define kx where "kx = round_even (x / qx)"
  have qy: "0 < qy" and qx: "0 < qx" by (simp_all add: qy_def qx_def zero_less_power_int)
  have rndy: "dbl_round y = (if DBL_MAX < \<bar>qy * of_int ky\<bar> then sgn y * dbl_inf else qy * of_int ky)"
    by (simp add: dbl_round_def Let_def qy_def ey_def ky_def)
  have "dbl_round x = (if DBL_MAX < \<bar>qx * of_int kx\<bar> then sgn x * dbl_inf else qx * of_int kx)"
    by (simp add: dbl_round_def Let_def qx_def ex_def kx_def)
  with x have rndx: "x = (if DBL_MAX < \<bar>qx * of_int kx\<bar> then sgn x * dbl_inf else qx * of_int kx)"
    by (simp only: is_double_def)
  from x0 xy have y0: "0 \<le> y" by simp
  from y0 qy have "of_int 0 \<le> y / qy" by simp
  then have ky0: "0 \<le> ky" unfolding ky_def by (rule round_even_ge)
  have xle: "x \<le> dbl_inf"
  proof (cases "DBL_MAX < \<bar>qx * of_int kx\<bar>")
    case True
    with rndx have "x = sgn x * dbl_inf" by simp
    with dbl_inf_pos show ?thesis by (cases "x = 0") (simp_all add: sgn_if split: if_splits)
  next
    case False
    with rndx have "\<bar>x\<bar> \<le> DBL_MAX" by simp
    with DBL_MAX_less_inf show ?thesis by simp
  qed
  show ?thesis
  proof (cases "DBL_MAX < \<bar>qy * of_int ky\<bar>")
    case True
    have "y \<noteq> 0"
    proof
      assume "y = 0"
      then have "ky = 0" by (simp add: ky_def round_even_def)
      with True show False by (simp add: DBL_MAX_def)
    qed
    with y0 have "sgn y = 1" by simp
    with True rndy xle show ?thesis by simp
  next
    case False
    with rndy have ry: "dbl_round y = qy * of_int ky" by simp
    have exy: "ex \<le> ey" unfolding ex_def ey_def using x0 xy by (intro dbl_exponent_mono) simp
    show ?thesis
    proof (cases "DBL_MAX < \<bar>qx * of_int kx\<bar>")
      case True
      with rndx have "x = sgn x * dbl_inf" by simp
      with x0 dbl_inf_pos have xi: "x = dbl_inf \<or> x = 0"
        by (cases "x = 0") (simp_all add: sgn_if split: if_splits)
      show ?thesis
      proof (cases "x = 0")
        case True
        with ry qy ky0 show ?thesis by simp
      next
        case nz: False
        with xi have "x = dbl_inf" by simp
        with xy have big: "2 ^ 1024 \<le> y" by (simp add: dbl_inf_def)
        with y0 have "2 ^ 1023 \<le> \<bar>y\<bar>" by simp
        then have "ey = 1023" unfolding ey_def by (rule dbl_exponent_huge)
        then have qv: "qy = 2 ^ 971" by (simp add: qy_def)
        from big have "of_int (2 ^ 53) \<le> y / qy" by (simp add: qv field_simps)
        then have "2 ^ 53 \<le> ky" unfolding ky_def by (rule round_even_ge)
        then have "(2 :: real) ^ 53 \<le> of_int ky" by (metis of_int_le_iff of_int_numeral of_int_power)
        then have "(2 :: real) ^ 971 * 2 ^ 53 \<le> qy * of_int ky" by (simp add: qv)
        with False show ?thesis by (simp add: DBL_MAX_def)
      qed
    next
      case fx: False
      with rndx have xq: "x = qx * of_int kx" and xs: "\<bar>x\<bar> \<le> DBL_MAX" by simp_all
      show ?thesis
      proof (cases "ex = ey")
        case True
        then have "qx = qy" by (simp add: qx_def qy_def)
        with xq have "x = qy * of_int kx" by simp
        with xy qy have "of_int kx \<le> y / qy" by (simp add: field_simps)
        then have "kx \<le> ky" unfolding ky_def by (rule round_even_ge)
        with \<open>x = qy * of_int kx\<close> ry qy show ?thesis by simp
      next
        case False
        with exy have lt: "ex + 1 \<le> ey" by simp
        from xs DBL_MAX_less_inf have "\<bar>x\<bar> < 2 ^ 1024" by (simp add: dbl_inf_def)
        then have "\<bar>x\<bar> < 2 powi (ex + 1)" unfolding ex_def by (rule dbl_exponent_upper)
        also from lt have "(2 :: real) powi (ex + 1) \<le> 2 powi ey"
          by (rule power_int_increasing) simp
        finally have x_lt: "x < 2 powi ey" by simp
        from lt dbl_exponent_range(1) [of x] have "- 1022 < ey" by (simp add: ex_def)
        then have "2 powi ey \<le> \<bar>y\<bar>" unfolding ey_def by (rule dbl_exponent_lower)
        with y0 have low: "2 powi ey \<le> y" by simp
        have "(2 :: real) powi ey = qy * 2 ^ 52"
          using powi_shift [of ey 52] by (simp add: qy_def)
        with low qy have "of_int (2 ^ 52) \<le> y / qy" by (simp add: field_simps)
        then have "2 ^ 52 \<le> ky" unfolding ky_def by (rule round_even_ge)
        then have "(2 :: real) ^ 52 \<le> of_int ky" by (metis of_int_le_iff of_int_numeral of_int_power)
        with qy have "qy * 2 ^ 52 \<le> qy * of_int ky" by simp
        with \<open>2 powi ey = qy * 2 ^ 52\<close> x_lt ry show ?thesis by simp
      qed
    qed
  qed
qed

lemma is_double_0: "is_double 0"
  by (simp add: is_double_def dbl_round_0)

lemma is_double_DBL_MAX: "is_double DBL_MAX"
  by (simp add: is_double_def dbl_round_DBL_MAX)

lemma DBL_MAX_pos: "0 < DBL_MAX"
  by (simp add: DBL_MAX_def)

lemma dbl_add_ge:
  assumes "is_double x" and "0 \<le> x" and "0 \<le> c"
  shows "x \<le> dbl_add x c"
proof (cases "\<bar>x\<bar> = dbl_inf")
  case True
  then show ?thesis by (simp add: dbl_add_def)
next
  case False
  from assms(3) have "x \<le> x + c" by simp
  with assms(1,2) have "x \<le> dbl_round (x + c)" by (rule dbl_round_above)
  with False show ?thesis by (simp add: dbl_add_def)
qed

lemma is_double_dbl_add:
  assumes "is_double x" and "0 \<le> x" and "0 \<le> c"
  shows "is_double (dbl_add x c)"
proof (cases "\<bar>x\<bar> = dbl_inf")
  case True
  with assms(1) show ?thesis by (simp add: dbl_add_def)
next
  case False
  from assms(2,3) have "0 \<le> x + c" by simp
  then have "dbl_round (dbl_round (x + c)) = dbl_round (x + c)" by (rule dbl_round_idem)
  with False show ?thesis by (simp add: dbl_add_def is_double_def)
qed

lemma dbl_add_int:
  assumes "\<bar>i + j\<bar> \<le> 2 ^ 53" and "\<bar>i\<bar> \<le> 2 ^ 53"
  shows "dbl_add (of_int i) (of_int j) = of_int (i + j)"
proof -
  have "\<bar>real_of_int i\<bar> \<le> 2 ^ 53" using assms(2) by (metis of_int_abs of_int_le_iff of_int_numeral of_int_power)
  also have "(2 :: real) ^ 53 < dbl_inf" by (simp add: dbl_inf_def)
  finally have "\<bar>real_of_int i\<bar> \<noteq> dbl_inf" by simp
  moreover have "dbl_round (of_int (i + j)) = of_int (i + j)" using assms(1) by (rule dbl_round_int)
  ultimately show ?thesis by (simp add: dbl_add_def)
qed

section \<open>Shortest paths: the example and the start vertex\<close>

subsection \<open>The example of the specification\<close>

lemma DBL_MAX_large: "1000 < DBL_MAX"
  by (simp add: DBL_MAX_def)

definition example_graph :: "(unit, real) Digraph" where
  "example_graph =
     snd (addEdge 3 2 1 (snd (addEdge 1 3 2 (snd (addEdge 1 2 5
       (snd (addVertex 3 () (snd (addVertex 2 () (snd (addVertex 1 () Digraph_empty)))))))))))"

lemma example_graph_eq:
  "example_graph =
     \<lparr>g_m = [1 \<mapsto> \<lparr>vinfo = (), edges = [\<lparr>fromVertex = 1, toVertex = 2, einfo = 5\<rparr>,
                                          \<lparr>fromVertex = 1, toVertex = 3, einfo = 2\<rparr>]\<rparr>,
             2 \<mapsto> \<lparr>vinfo = (), edges = []\<rparr>,
             3 \<mapsto> \<lparr>vinfo = (), edges = [\<lparr>fromVertex = 3, toVertex = 2, einfo = 1\<rparr>]\<rparr>],
      g_v = [1, 2, 3], g_e = [(1, 2), (1, 3), (3, 2)], vertexC = 3, edgeC = 3\<rparr>"
  by (simp add: example_graph_def addEdge_def addVertex_def findVertex_def findVertexNotExist_def
      Digraph_empty_def fun_upd_twist)

text \<open>
  C3. On the graph with the vertices 1, 2, 3 and the edges 1\<rightarrow>2 of weight 5, 1\<rightarrow>3 of
  weight 2 and 3\<rightarrow>2 of weight 1, \<open>findShortestPaths(1, weightFn)\<close> returns the
  predecessor map \<open>{1\<rightarrow>1, 2\<rightarrow>3, 3\<rightarrow>1}\<close>.
\<close>

theorem example_shortest_paths:
  "findShortestPaths 1 (\<lambda>weight. weight) example_graph = Inr [1 \<mapsto> 1, 2 \<mapsto> 3, 3 \<mapsto> 1]"
proof -
  have big: "5 < DBL_MAX" "2 < DBL_MAX" "3 < DBL_MAX" using DBL_MAX_large by simp_all
  have sums: "dbl_add 0 5 = 5" "dbl_add 0 2 = 2" "dbl_add 2 1 = 3"
    using dbl_add_int [of 0 5] dbl_add_int [of 0 2] dbl_add_int [of 2 1] by simp_all
  have "findShortestPaths 1 (\<lambda>weight. weight) example_graph =
          Inr [1 \<mapsto> 1, 2 \<mapsto> 2, 3 \<mapsto> 3, 2 \<mapsto> 1, 3 \<mapsto> 1, 2 \<mapsto> 3]"
    unfolding example_graph_eq
    by (simp add: findShortestPaths_def sp_loop.simps indexOf_def in_bounds_def pq_push_def
        pq_pop_def pq_top_def pair_less_def edgeInfo_def VertexExist_def big sums Let_def)
  also have "([1 \<mapsto> 1, 2 \<mapsto> 2, 3 \<mapsto> 3, 2 \<mapsto> 1, 3 \<mapsto> 1, 2 \<mapsto> 3] :: int \<rightharpoonup> int) =
      [1 \<mapsto> 1, 2 \<mapsto> 3, 3 \<mapsto> 1]"
    by (auto simp: fun_eq_iff)
  finally show ?thesis .
qed

subsection \<open>The start vertex is not checked\<close>

lemma in_bounds_indexOf: "x \<in> set vs \<Longrightarrow> length xs = length vs \<Longrightarrow> in_bounds (indexOf x vs) xs"
  using indexOf_present [of x vs] by (simp add: in_bounds_def)

lemma edgeInfo_wf:
  assumes "wf_Digraph g" and "u \<in> set (g_v g)" and "it \<in> set (out_of (g_m g) u)"
  shows "edgeInfo u (toVertex it) g = Inr (einfo it)"
proof -
  from wf_lookup [OF assms(1,2)] obtain dv where dv: "g_m g u = Some dv" by blast
  with assms(3) have it: "it \<in> set (edges dv)" by (simp add: out_of_Some)
  have "distinct (map toVertex (edges dv))"
    using wf_out_distinct [OF assms(1,2)] dv by (simp add: out_of_Some)
  with it have "edgeInfo_scan (toVertex it) (edges dv) = Inr (einfo it)"
    by (rule edgeInfo_scan_present)
  with dv assms(2) wf_edge [OF assms] show ?thesis
    by (simp add: edgeInfo_def VertexExist_iff)
qed

lemma relax_edges_returns:
  assumes "wf_Digraph g" and "u \<in> set (g_v g)" and "set es \<subseteq> set (out_of (g_m g) u)"
    and "length Dv = length (g_v g)" and "snd ` set pq \<subseteq> set (g_v g)"
  shows "\<exists>Dv' Pv' pq'.
           relax_edges g wt (g_v g) u (indexOf u (g_v g)) es (Dv, Pv, pq) = Inr (Dv', Pv', pq') \<and>
           length Dv' = length (g_v g) \<and> snd ` set pq' \<subseteq> set (g_v g)"
  using assms(3-5)
proof (induction es arbitrary: Dv Pv pq)
  case Nil
  then show ?case by simp
next
  case (Cons edge rest)
  from Cons.prems(1) have edge: "edge \<in> set (out_of (g_m g) u)"
    and rest: "set rest \<subseteq> set (out_of (g_m g) u)" by auto
  have w: "toVertex edge \<in> set (g_v g)" using wf_edge [OF assms(1,2) edge] by simp
  have bw: "in_bounds (indexOf (toVertex edge) (g_v g)) Dv"
    using w Cons.prems(2) by (rule in_bounds_indexOf)
  have bu: "in_bounds (indexOf u (g_v g)) Dv"
    using assms(2) Cons.prems(2) by (rule in_bounds_indexOf)
  have info: "edgeInfo u (toVertex edge) g = Inr (einfo edge)"
    using assms(1,2) edge by (rule edgeInfo_wf)
  let ?d = "dbl_add (Dv ! nat (indexOf u (g_v g))) (wt (einfo edge))"
  show ?case
  proof (cases "Dv ! nat (indexOf (toVertex edge) (g_v g)) > ?d")
    case True
    have "\<exists>Dv' Pv' pq'.
        relax_edges g wt (g_v g) u (indexOf u (g_v g)) rest
          (Dv[nat (indexOf (toVertex edge) (g_v g)) := ?d], Pv(toVertex edge \<mapsto> u),
           pq_push (?d, toVertex edge) pq) = Inr (Dv', Pv', pq') \<and>
        length Dv' = length (g_v g) \<and> snd ` set pq' \<subseteq> set (g_v g)"
      using rest Cons.prems(2,3) w by (intro Cons.IH) (auto simp: pq_push_def)
    with True bw bu info show ?thesis by (simp add: Let_def)
  next
    case False
    have "\<exists>Dv' Pv' pq'.
        relax_edges g wt (g_v g) u (indexOf u (g_v g)) rest (Dv, Pv, pq) = Inr (Dv', Pv', pq') \<and>
        length Dv' = length (g_v g) \<and> snd ` set pq' \<subseteq> set (g_v g)"
      using rest Cons.prems(2,3) by (intro Cons.IH)
    with False bw bu info show ?thesis by (simp add: Let_def)
  qed
qed

lemma set_pq_pop: "set (pq_pop pq) \<subseteq> set pq"
  using set_remove1_subset [of "pq_top pq" pq] by (simp add: pq_pop_def)

lemma sp_loop_returns:
  "wf_Digraph g \<Longrightarrow> vs = g_v g \<Longrightarrow> length Kv = length vs \<Longrightarrow> length Dv = length vs \<Longrightarrow>
     snd ` set pq \<subseteq> set vs \<Longrightarrow> \<exists>Pv'. sp_loop g wt vs (Kv, Dv, Pv, pq) = Inr Pv'"
proof (induction g wt vs "(Kv, Dv, Pv, pq)" arbitrary: Kv Dv Pv pq rule: sp_loop.induct)
  case (1 g wt vs Kv Dv Pv pq)
  note wf = "1.prems"(1) and vs = "1.prems"(2)
  show ?case
  proof (cases "pq = []")
    case True
    then show ?thesis by (simp add: sp_loop.simps)
  next
    case False
    let ?u = "snd (pq_top pq)"
    let ?i = "indexOf ?u vs"
    have u: "?u \<in> set vs" using pq_top_in [OF False] "1.prems"(5) by auto
    have bi: "in_bounds ?i Kv" using u "1.prems"(3) by (rule in_bounds_indexOf)
    have pop: "snd ` set (pq_pop pq) \<subseteq> set vs"
      using set_pq_pop [of pq] "1.prems"(5) by auto
    show ?thesis
    proof (cases "Kv ! nat ?i")
      case True
      have "\<exists>Pv'. sp_loop g wt vs (Kv, Dv, Pv, pq_pop pq) = Inr Pv'"
        using False bi True "1.prems" pop by (intro "1.hyps"(2)) auto
      with False bi True show ?thesis by (subst sp_loop.simps) (simp add: Let_def)
    next
      case unvisited: False
      from u vs wf_lookup [OF wf] obtain dv where dv: "g_m g ?u = Some dv" by blast
      from relax_edges_returns [OF wf, of ?u "edges dv" Dv "pq_pop pq" wt Pv]
      obtain Dv' Pv' pq' where
        relax: "relax_edges g wt vs ?u ?i (edges dv) (Dv, Pv, pq_pop pq) = Inr (Dv', Pv', pq')"
        and len: "length Dv' = length vs" and sub: "snd ` set pq' \<subseteq> set vs"
        using dv u pop "1.prems"(4) unfolding vs by (auto simp: out_of_Some)
      have "\<exists>P. sp_loop g wt vs (Kv[nat ?i := True], Dv', Pv', pq') = Inr P"
        using False bi unvisited dv relax "1.prems" len sub
        by (intro "1.hyps"(1)) auto
      with False bi unvisited dv relax show ?thesis
        by (subst sp_loop.simps) (simp add: Let_def)
    qed
  qed
qed

text \<open>
  C9. \<open>findShortestPaths\<close> does not test that \<open>startVertex\<close> exists. For a start vertex
  that is not in the graph \<open>indexOf\<close> returns \<open>-1\<close> and the first thing that happens is
  the write to \<open>Dv[-1]\<close>; no \<open>DigraphException\<close> is thrown. For a start vertex of a
  graph that satisfies the invariant, every position the function computes is inside
  its vector and the function returns a map.
\<close>

theorem findShortestPaths_start_unchecked:
  "(startVertex \<notin> set (vertices g) \<longrightarrow>
      indexOf startVertex (vertices g) = - 1 \<and>
      findShortestPaths startVertex wt g = Inl (OutOfBounds (- 1)) \<and>
      findShortestPaths startVertex wt g \<noteq> Inl (NoSuchVertex startVertex)) \<and>
   (wf_Digraph g \<and> startVertex \<in> set (vertices g) \<longrightarrow>
      (\<exists>Pv. findShortestPaths startVertex wt g = Inr Pv))"
proof (intro conjI impI)
  assume "startVertex \<notin> set (vertices g)"
  then have i: "indexOf startVertex (g_v g) = - 1"
    by (simp add: vertices_def indexOf_absent)
  then show "indexOf startVertex (vertices g) = - 1" by (simp add: vertices_def)
  from i show "findShortestPaths startVertex wt g = Inl (OutOfBounds (- 1))"
    by (simp add: findShortestPaths_def in_bounds_def Let_def)
  then show "findShortestPaths startVertex wt g \<noteq> Inl (NoSuchVertex startVertex)" by simp
next
  assume a: "wf_Digraph g \<and> startVertex \<in> set (vertices g)"
  then have s: "startVertex \<in> set (g_v g)" by (simp add: vertices_def)
  then have "in_bounds (indexOf startVertex (g_v g)) (replicate (length (g_v g)) DBL_MAX)"
    by (rule in_bounds_indexOf) simp
  moreover have "\<exists>Pv'. sp_loop g wt (g_v g)
      (replicate (length (g_v g)) False,
       (replicate (length (g_v g)) DBL_MAX)[nat (indexOf startVertex (g_v g)) := 0],
       fold (\<lambda>vertex P. P(vertex \<mapsto> vertex)) (g_v g) Map.empty,
       pq_push (0, startVertex) []) = Inr Pv'"
    using a s by (intro sp_loop_returns) (simp_all add: pq_push_def)
  ultimately show "\<exists>Pv. findShortestPaths startVertex wt g = Inr Pv"
    by (simp add: findShortestPaths_def Let_def)
qed

theorem findShortestPaths_start_unchecked_witness:
  "7 \<notin> set (vertices example_graph) \<and>
   indexOf 7 (vertices example_graph) = - 1 \<and>
   findShortestPaths 7 (\<lambda>weight. weight) example_graph = Inl (OutOfBounds (- 1)) \<and>
   wf_Digraph example_graph \<and> 1 \<in> set (vertices example_graph) \<and>
   (\<exists>Pv. findShortestPaths 1 (\<lambda>weight. weight) example_graph = Inr Pv)"
proof -
  have w: "wf_Digraph example_graph"
    unfolding example_graph_def by (intro wf_addEdge wf_addVertex wf_Digraph_empty)
  have v: "7 \<notin> set (vertices example_graph)" "1 \<in> set (vertices example_graph)"
    by (simp_all add: example_graph_eq vertices_def)
  from w v findShortestPaths_start_unchecked [of 7 example_graph "\<lambda>weight. weight"]
    findShortestPaths_start_unchecked [of 1 example_graph "\<lambda>weight. weight"]
  show ?thesis by simp
qed

section \<open>What strong connectivity decides\<close>

subsection \<open>What a traversal removes\<close>

definition succs :: "('v, 'e) Digraph \<Rightarrow> int \<Rightarrow> int set" where
  "succs g a = toVertex ` set (out_of (g_m g) a)"

definition edge_rel :: "('v, 'e) Digraph \<Rightarrow> (int \<times> int) set" where
  "edge_rel g = {(a, b). b \<in> succs g a}"

lemma edge_rel_eq:
  assumes "wf_Digraph g"
  shows "edge_rel g = set (edges_all g)"
proof -
  have "a \<in> set (g_v g)" if "it \<in> set (out_of (g_m g) a)" for a and it :: "'b DigraphEdge"
  proof (rule ccontr)
    assume "a \<notin> set (g_v g)"
    with wf_lookup_None [OF assms] have "out_of (g_m g) a = []" by (simp add: out_of_None)
    with that show False by simp
  qed
  then show ?thesis
    unfolding edge_rel_def succs_def edges_all_def wf_set_e [OF assms] by auto
qed

lemma succs_in: "wf_Digraph g \<Longrightarrow> a \<in> set (g_v g) \<Longrightarrow> succs g a \<subseteq> set (g_v g)"
  using wf_edge [of g a] by (auto simp: succs_def)

lemma DFTr_visits:
  "wf_Digraph g \<Longrightarrow> distinct vs \<Longrightarrow> set vs \<subseteq> set (g_v g) \<Longrightarrow> vertex \<in> set vs \<Longrightarrow>
     \<exists>vs'. DFTr g vertex vs = Inr vs' \<and> distinct vs' \<and> set vs' \<subseteq> set vs - {vertex} \<and>
       set vs - set vs' \<subseteq> (edge_rel g)\<^sup>* `` {vertex} \<and>
       (\<forall>a\<in>set vs - set vs'. succs g a \<inter> set vs' = {})"
  "wf_Digraph g \<Longrightarrow> distinct vs \<Longrightarrow> set vs \<subseteq> set (g_v g) \<Longrightarrow>
     \<exists>vs'. DFTr_edges g es vs = Inr vs' \<and> distinct vs' \<and> set vs' \<subseteq> set vs \<and>
       set vs - set vs' \<subseteq> (edge_rel g)\<^sup>* `` (toVertex ` set es) \<and>
       (\<forall>a\<in>set vs - set vs'. succs g a \<inter> set vs' = {}) \<and>
       toVertex ` set es \<inter> set vs' = {}"
proof (induction g vertex vs and g es vs rule: DFTr_DFTr_edges.induct)
  case (1 g vertex vs)
  let ?vs0 = "erase_at (nat (indexOf vertex vs)) vs"
  from "1.prems" have found: "indexOf vertex vs \<noteq> - 1" by (simp add: indexOf_eq_minus_one)
  from "1.prems" wf_lookup [of g vertex] obtain dv where dv: "g_m g vertex = Some dv" by blast
  have vs0: "?vs0 = remove1 vertex vs" using "1.prems"(4) by (rule erase_at_indexOf)
  have d0: "distinct ?vs0" and s0: "set ?vs0 = set vs - {vertex}"
    using "1.prems"(2) by (simp_all add: vs0)
  from s0 "1.prems"(3) have in0: "set ?vs0 \<subseteq> set (g_v g)" by auto
  from "1.IH" [OF refl found dv "1.prems"(1) d0 in0]
  obtain vs' where run: "DFTr_edges g (edges dv) ?vs0 = Inr vs'" and d: "distinct vs'"
    and sub: "set vs' \<subseteq> set ?vs0"
    and reach: "set ?vs0 - set vs' \<subseteq> (edge_rel g)\<^sup>* `` (toVertex ` set (edges dv))"
    and closed: "\<forall>a\<in>set ?vs0 - set vs'. succs g a \<inter> set vs' = {}"
    and dests: "toVertex ` set (edges dv) \<inter> set vs' = {}"
    by auto
  have sv: "succs g vertex = toVertex ` set (edges dv)"
    using dv by (simp add: succs_def out_of_Some)
  have "(edge_rel g)\<^sup>* `` (toVertex ` set (edges dv)) \<subseteq> (edge_rel g)\<^sup>* `` {vertex}"
  proof
    fix y
    assume "y \<in> (edge_rel g)\<^sup>* `` (toVertex ` set (edges dv))"
    then obtain b where b: "b \<in> succs g vertex" and path: "(b, y) \<in> (edge_rel g)\<^sup>*"
      unfolding sv by blast
    from b have "(vertex, b) \<in> edge_rel g" by (simp add: edge_rel_def)
    with path show "y \<in> (edge_rel g)\<^sup>* `` {vertex}"
      by (auto intro: converse_rtrancl_into_rtrancl)
  qed
  with reach have below: "set ?vs0 - set vs' \<subseteq> (edge_rel g)\<^sup>* `` {vertex}"
    by (rule subset_trans)
  have reach': "set vs - set vs' \<subseteq> (edge_rel g)\<^sup>* `` {vertex}"
  proof
    fix y
    assume y: "y \<in> set vs - set vs'"
    show "y \<in> (edge_rel g)\<^sup>* `` {vertex}"
    proof (cases "y = vertex")
      case True
      then show ?thesis by simp
    next
      case False
      with y s0 have "y \<in> set ?vs0 - set vs'" by simp
      with below show ?thesis by (rule subsetD)
    qed
  qed
  have closed': "\<forall>a\<in>set vs - set vs'. succs g a \<inter> set vs' = {}"
  proof
    fix a
    assume a: "a \<in> set vs - set vs'"
    show "succs g a \<inter> set vs' = {}"
    proof (cases "a = vertex")
      case True
      with dests sv show ?thesis by simp
    next
      case False
      with a s0 have "a \<in> set ?vs0 - set vs'" by simp
      with closed show ?thesis by (rule bspec)
    qed
  qed
  have "DFTr g vertex vs = Inr vs'"
    using found dv run by (simp add: Let_def)
  with d sub s0 reach' closed' show ?case by auto
next
  case (2 g vs)
  then show ?case by simp
next
  case (3 g edge rest vs)
  show ?case
  proof (cases "indexOf (toVertex edge) vs = - 1")
    case True
    then have notin: "toVertex edge \<notin> set vs" by (simp add: indexOf_eq_minus_one)
    from True have skip: "\<not> indexOf (toVertex edge) vs \<noteq> - 1" by simp
    from "3.IH"(3) [OF skip "3.prems"]
    obtain vs' where run: "DFTr_edges g rest vs = Inr vs'" and d: "distinct vs'"
      and sub: "set vs' \<subseteq> set vs"
      and reach: "set vs - set vs' \<subseteq> (edge_rel g)\<^sup>* `` (toVertex ` set rest)"
      and closed: "\<forall>a\<in>set vs - set vs'. succs g a \<inter> set vs' = {}"
      and dests: "toVertex ` set rest \<inter> set vs' = {}"
      by auto
    have "DFTr_edges g (edge # rest) vs = Inr vs'" using True run by simp
    moreover have "set vs - set vs' \<subseteq> (edge_rel g)\<^sup>* `` (toVertex ` set (edge # rest))"
    proof -
      have "(edge_rel g)\<^sup>* `` (toVertex ` set rest) \<subseteq>
          (edge_rel g)\<^sup>* `` (toVertex ` set (edge # rest))"
        by (rule Image_mono) auto
      with reach show ?thesis by (rule subset_trans)
    qed
    moreover have "toVertex ` set (edge # rest) \<inter> set vs' = {}"
      using dests notin sub by auto
    ultimately show ?thesis using d sub closed by blast
  next
    case False
    then have isin: "toVertex edge \<in> set vs" by (simp add: indexOf_eq_minus_one)
    from "3.IH"(1) [OF False "3.prems" isin]
    obtain vs1 where first: "DFTr g (toVertex edge) vs = Inr vs1" and d1: "distinct vs1"
      and sub1: "set vs1 \<subseteq> set vs - {toVertex edge}"
      and reach1: "set vs - set vs1 \<subseteq> (edge_rel g)\<^sup>* `` {toVertex edge}"
      and closed1: "\<forall>a\<in>set vs - set vs1. succs g a \<inter> set vs1 = {}"
      by auto
    from sub1 "3.prems"(3) have in1: "set vs1 \<subseteq> set (g_v g)" by auto
    from "3.IH"(2) [OF False first "3.prems"(1) d1 in1]
    obtain vs' where run: "DFTr_edges g rest vs1 = Inr vs'" and d: "distinct vs'"
      and sub: "set vs' \<subseteq> set vs1"
      and reach: "set vs1 - set vs' \<subseteq> (edge_rel g)\<^sup>* `` (toVertex ` set rest)"
      and closed: "\<forall>a\<in>set vs1 - set vs'. succs g a \<inter> set vs' = {}"
      and dests: "toVertex ` set rest \<inter> set vs' = {}"
      by auto
    have "DFTr_edges g (edge # rest) vs = Inr vs'" using False first run by simp
    moreover have "set vs' \<subseteq> set vs" using sub sub1 by auto
    moreover have "set vs - set vs' \<subseteq> (edge_rel g)\<^sup>* `` (toVertex ` set (edge # rest))"
    proof
      fix y
      assume y: "y \<in> set vs - set vs'"
      have "(edge_rel g)\<^sup>* `` {toVertex edge} \<subseteq>
          (edge_rel g)\<^sup>* `` (toVertex ` set (edge # rest))"
        by (rule Image_mono) simp_all
      with reach1 have r1: "set vs - set vs1 \<subseteq>
          (edge_rel g)\<^sup>* `` (toVertex ` set (edge # rest))"
        by (rule subset_trans)
      have "(edge_rel g)\<^sup>* `` (toVertex ` set rest) \<subseteq>
          (edge_rel g)\<^sup>* `` (toVertex ` set (edge # rest))"
        by (rule Image_mono) auto
      with reach have r2: "set vs1 - set vs' \<subseteq>
          (edge_rel g)\<^sup>* `` (toVertex ` set (edge # rest))"
        by (rule subset_trans)
      show "y \<in> (edge_rel g)\<^sup>* `` (toVertex ` set (edge # rest))"
      proof (cases "y \<in> set vs1")
        case True
        with y have "y \<in> set vs1 - set vs'" by simp
        with r2 show ?thesis by (rule subsetD)
      next
        case False
        with y have "y \<in> set vs - set vs1" by simp
        with r1 show ?thesis by (rule subsetD)
      qed
    qed
    moreover have "\<forall>a\<in>set vs - set vs'. succs g a \<inter> set vs' = {}"
    proof
      fix a
      assume a: "a \<in> set vs - set vs'"
      show "succs g a \<inter> set vs' = {}"
      proof (cases "a \<in> set vs1")
        case True
        with a closed show ?thesis by simp
      next
        case False
        with a closed1 have "succs g a \<inter> set vs1 = {}" by simp
        with sub show ?thesis by blast
      qed
    qed
    moreover have "toVertex ` set (edge # rest) \<inter> set vs' = {}"
      using dests sub sub1 by auto
    ultimately show ?thesis using d by blast
  qed
qed

lemma DFTr_root:
  assumes "wf_Digraph g" and "x \<in> set (g_v g)"
  shows "\<exists>vs'. DFTr g x (g_v g) = Inr vs' \<and> set vs' = set (g_v g) - (edge_rel g)\<^sup>* `` {x}"
proof -
  from DFTr_visits(1) [OF assms(1) wf_distinct [OF assms(1)] subset_refl assms(2)]
  obtain vs' where run: "DFTr g x (g_v g) = Inr vs'"
    and sub: "set vs' \<subseteq> set (g_v g) - {x}"
    and reach: "set (g_v g) - set vs' \<subseteq> (edge_rel g)\<^sup>* `` {x}"
    and closed: "\<forall>a\<in>set (g_v g) - set vs'. succs g a \<inter> set vs' = {}"
    by blast
  have "y \<in> set (g_v g) - set vs'" if "(x, y) \<in> (edge_rel g)\<^sup>*" for y
    using that
  proof (induction rule: rtrancl_induct)
    case base
    from assms(2) sub show ?case by auto
  next
    case (step a b)
    from step.hyps(2) have b: "b \<in> succs g a" by (simp add: edge_rel_def)
    with succs_in [OF assms(1), of a] step.IH have "b \<in> set (g_v g)" by auto
    with closed step.IH b show ?case by auto
  qed
  with reach have "set (g_v g) - set vs' = (edge_rel g)\<^sup>* `` {x}" by auto
  with sub have "set vs' = set (g_v g) - (edge_rel g)\<^sup>* `` {x}" by auto
  with run show ?thesis by blast
qed

lemma isStronglyConnected_loop_correct:
  assumes "wf_Digraph g"
  shows "set xs \<subseteq> set (g_v g) \<Longrightarrow>
    isStronglyConnected_loop g xs =
      Inr (\<forall>x\<in>set xs. \<forall>y\<in>set (g_v g). (x, y) \<in> (edge_rel g)\<^sup>*)"
proof (induction xs)
  case Nil
  then show ?case by simp
next
  case (Cons x xs)
  from Cons.prems have x: "x \<in> set (g_v g)" and xs: "set xs \<subseteq> set (g_v g)" by auto
  from DFTr_root [OF assms x] obtain vs' where run: "DFTr g x (g_v g) = Inr vs'"
    and left: "set vs' = set (g_v g) - (edge_rel g)\<^sup>* `` {x}"
    by blast
  have "length vs' \<noteq> 0 \<longleftrightarrow> \<not> (\<forall>y\<in>set (g_v g). (x, y) \<in> (edge_rel g)\<^sup>*)"
  proof -
    have "length vs' \<noteq> 0 \<longleftrightarrow> set vs' \<noteq> {}" by simp
    also have "\<dots> \<longleftrightarrow> \<not> (\<forall>y\<in>set (g_v g). (x, y) \<in> (edge_rel g)\<^sup>*)"
      unfolding left by auto
    finally show ?thesis .
  qed
  with run Cons.IH [OF xs] show ?case by auto
qed

text \<open>
  C4. \<open>isStronglyConnected()\<close> returns true if and only if every vertex is reachable
  from every other vertex along directed edges; it returns true for the empty graph and
  for the graph with one vertex and no edge.
\<close>

theorem isStronglyConnected_correct:
  "(wf_Digraph g \<longrightarrow>
      isStronglyConnected g =
        Inr (\<forall>x\<in>set (vertices g). \<forall>y\<in>set (vertices g). (x, y) \<in> (set (edges_all g))\<^sup>*)) \<and>
   isStronglyConnected (Digraph_empty :: ('v, 'e) Digraph) = Inr True \<and>
   isStronglyConnected (snd (addVertex a info (Digraph_empty :: ('v, 'e) Digraph))) = Inr True"
proof (intro conjI impI)
  assume w: "wf_Digraph g"
  from isStronglyConnected_loop_correct [OF w subset_refl] edge_rel_eq [OF w]
  show "isStronglyConnected g =
        Inr (\<forall>x\<in>set (vertices g). \<forall>y\<in>set (vertices g). (x, y) \<in> (set (edges_all g))\<^sup>*)"
    by (simp add: isStronglyConnected_def vertices_def)
next
  show "isStronglyConnected (Digraph_empty :: ('v, 'e) Digraph) = Inr True"
    by (simp add: isStronglyConnected_def Digraph_empty_def)
next
  show "isStronglyConnected (snd (addVertex a info (Digraph_empty :: ('v, 'e) Digraph))) = Inr True"
    by (simp add: isStronglyConnected_def addVertex_def findVertexNotExist_def Digraph_empty_def
        indexOf_def erase_at_def)
qed

text \<open>The three-vertex cycle of the specification, and the same graph without the edge 3\<rightarrow>1.\<close>

definition cycle_graph :: "(unit, nat) Digraph" where
  "cycle_graph =
     snd (addEdge 3 1 1 (snd (addEdge 2 3 1 (snd (addEdge 1 2 1
       (snd (addVertex 3 () (snd (addVertex 2 () (snd (addVertex 1 () Digraph_empty)))))))))))"

lemma cycle_graph_eq:
  "cycle_graph =
     \<lparr>g_m = [1 \<mapsto> \<lparr>vinfo = (), edges = [\<lparr>fromVertex = 1, toVertex = 2, einfo = 1\<rparr>]\<rparr>,
             2 \<mapsto> \<lparr>vinfo = (), edges = [\<lparr>fromVertex = 2, toVertex = 3, einfo = 1\<rparr>]\<rparr>,
             3 \<mapsto> \<lparr>vinfo = (), edges = [\<lparr>fromVertex = 3, toVertex = 1, einfo = 1\<rparr>]\<rparr>],
      g_v = [1, 2, 3], g_e = [(1, 2), (2, 3), (3, 1)], vertexC = 3, edgeC = 3\<rparr>"
  by (simp add: cycle_graph_def addEdge_def addVertex_def findVertex_def findVertexNotExist_def
      Digraph_empty_def fun_upd_twist)

theorem isStronglyConnected_correct_witness:
  "wf_Digraph cycle_graph \<and>
   isStronglyConnected cycle_graph =
     Inr (\<forall>x\<in>set (vertices cycle_graph). \<forall>y\<in>set (vertices cycle_graph).
            (x, y) \<in> (set (edges_all cycle_graph))\<^sup>*) \<and>
   isStronglyConnected cycle_graph = Inr True \<and>
   isStronglyConnected (snd (removeEdge 3 1 cycle_graph)) = Inr False"
proof -
  have w: "wf_Digraph cycle_graph"
    unfolding cycle_graph_def by (intro wf_addEdge wf_addVertex wf_Digraph_empty)
  have t: "isStronglyConnected cycle_graph = Inr True"
    unfolding cycle_graph_eq
    by (simp add: isStronglyConnected_def indexOf_def erase_at_def)
  have f: "isStronglyConnected (snd (removeEdge 3 1 cycle_graph)) = Inr False"
    unfolding cycle_graph_eq
    by (simp add: isStronglyConnected_def indexOf_def erase_at_def removeEdge_def edgeInfo_def
        VertexExist_def)
  note eq = isStronglyConnected_correct [of cycle_graph 0 "()", THEN conjunct1, THEN mp, OF w]
  from w eq t f show ?thesis by (intro conjI)
qed

section \<open>The predecessor map of the shortest paths\<close>

text \<open>The tentative distance and the visited mark of a vertex, read at its position.\<close>

definition dist_of :: "int list \<Rightarrow> real list \<Rightarrow> int \<Rightarrow> real" where
  "dist_of vs Dv x = Dv ! nat (indexOf x vs)"

definition done_of :: "int list \<Rightarrow> bool list \<Rightarrow> int \<Rightarrow> bool" where
  "done_of vs Kv x = Kv ! nat (indexOf x vs)"

lemma nat_indexOf_inj:
  assumes "x \<in> set vs" and "y \<in> set vs"
  shows "nat (indexOf x vs) = nat (indexOf y vs) \<longleftrightarrow> x = y"
proof
  assume "nat (indexOf x vs) = nat (indexOf y vs)"
  then have "vs ! nat (indexOf x vs) = vs ! nat (indexOf y vs)" by simp
  then show "x = y"
    by (simp only: indexOf_present(3) [OF assms(1)] indexOf_present(3) [OF assms(2)])
next
  assume "x = y"
  then show "nat (indexOf x vs) = nat (indexOf y vs)" by simp
qed

lemma nat_indexOf_less: "y \<in> set vs \<Longrightarrow> nat (indexOf y vs) < length vs"
  using indexOf_present(1,2) [of y vs] by linarith

lemma dist_of_update:
  assumes "x \<in> set vs" and "y \<in> set vs" and "length Dv = length vs"
  shows "dist_of vs (Dv[nat (indexOf y vs) := c]) x = (if x = y then c else dist_of vs Dv x)"
proof (cases "x = y")
  case True
  with nat_indexOf_less [OF assms(2)] assms(3) show ?thesis by (simp add: dist_of_def)
next
  case False
  with nat_indexOf_inj [OF assms(1,2)] show ?thesis by (simp add: dist_of_def)
qed

lemma done_of_update:
  assumes "x \<in> set vs" and "y \<in> set vs" and "length Kv = length vs"
  shows "done_of vs (Kv[nat (indexOf y vs) := b]) x = (if x = y then b else done_of vs Kv x)"
proof (cases "x = y")
  case True
  with nat_indexOf_less [OF assms(2)] assms(3) show ?thesis by (simp add: done_of_def)
next
  case False
  with nat_indexOf_inj [OF assms(1,2)] show ?thesis by (simp add: done_of_def)
qed

text \<open>
  The part of the loop invariant that holds for every non-negative weight function: the
  start vertex keeps distance 0, every distance is a double between 0 and \<open>DBL_MAX\<close>, a
  vertex whose distance has dropped below \<open>DBL_MAX\<close> is
  reachable from the start vertex, everything in the queue has such a distance, and a
  vertex is its own predecessor exactly when it is the start vertex or its distance is
  still \<open>DBL_MAX\<close>.
\<close>

definition sp_safe ::
  "('v, 'e) Digraph \<Rightarrow> int \<Rightarrow> real list \<Rightarrow> (int \<rightharpoonup> int) \<Rightarrow> (real \<times> int) list \<Rightarrow> bool" where
  "sp_safe g s Dv Pv pq \<longleftrightarrow>
     length Dv = length (g_v g) \<and> snd ` set pq \<subseteq> set (g_v g) \<and> dom Pv = set (g_v g) \<and>
     dist_of (g_v g) Dv s = 0 \<and>
     (\<forall>x\<in>set (g_v g). 0 \<le> dist_of (g_v g) Dv x \<and> dist_of (g_v g) Dv x \<le> DBL_MAX \<and>
        is_double (dist_of (g_v g) Dv x)) \<and>
     (\<forall>x\<in>set (g_v g). dist_of (g_v g) Dv x < DBL_MAX \<longrightarrow> (s, x) \<in> (edge_rel g)\<^sup>*) \<and>
     (\<forall>x\<in>snd ` set pq. dist_of (g_v g) Dv x < DBL_MAX) \<and>
     (\<forall>x\<in>set (g_v g). Pv x = Some x \<longleftrightarrow> x = s \<or> \<not> dist_of (g_v g) Dv x < DBL_MAX)"

lemma relax_edges_step:
  assumes "wf_Digraph g" and "u \<in> set (g_v g)" and "edge \<in> set (out_of (g_m g) u)"
    and "length Dv = length (g_v g)"
  shows "relax_edges g wt (g_v g) u (indexOf u (g_v g)) (edge # rest) (Dv, Pv, pq) =
    (if dist_of (g_v g) Dv (toVertex edge) > dbl_add (dist_of (g_v g) Dv u) (wt (einfo edge))
     then relax_edges g wt (g_v g) u (indexOf u (g_v g)) rest
       (Dv[nat (indexOf (toVertex edge) (g_v g)) := dbl_add (dist_of (g_v g) Dv u) (wt (einfo edge))],
        Pv(toVertex edge \<mapsto> u),
        pq @ [(dbl_add (dist_of (g_v g) Dv u) (wt (einfo edge)), toVertex edge)])
     else relax_edges g wt (g_v g) u (indexOf u (g_v g)) rest (Dv, Pv, pq))"
proof -
  have w: "toVertex edge \<in> set (g_v g)" using wf_edge [OF assms(1-3)] by simp
  have bw: "in_bounds (indexOf (toVertex edge) (g_v g)) Dv"
    using w assms(4) by (rule in_bounds_indexOf)
  have bu: "in_bounds (indexOf u (g_v g)) Dv"
    using assms(2,4) by (rule in_bounds_indexOf)
  have info: "edgeInfo u (toVertex edge) g = Inr (einfo edge)"
    using assms(1-3) by (rule edgeInfo_wf)
  show ?thesis
    using bw bu info by (simp add: Let_def dist_of_def pq_push_def)
qed

lemma sp_safe_update:
  assumes safe: "sp_safe g s Dv Pv pq"
    and s: "s \<in> set (g_v g)" and u: "u \<in> set (g_v g)" and y: "y \<in> set (g_v g)"
    and edge: "(u, y) \<in> edge_rel g" and found: "dist_of (g_v g) Dv u < DBL_MAX"
    and nonneg: "0 \<le> w" and better: "dist_of (g_v g) Dv y > dbl_add (dist_of (g_v g) Dv u) w"
  shows "sp_safe g s (Dv[nat (indexOf y (g_v g)) := dbl_add (dist_of (g_v g) Dv u) w]) (Pv(y \<mapsto> u))
           (pq @ [(dbl_add (dist_of (g_v g) Dv u) w, y)])"
    and "dist_of (g_v g) (Dv[nat (indexOf y (g_v g)) := dbl_add (dist_of (g_v g) Dv u) w]) u =
           dist_of (g_v g) Dv u"
proof -
  let ?vs = "g_v g"
  let ?c = "dbl_add (dist_of ?vs Dv u) w"
  let ?Dv1 = "Dv[nat (indexOf y ?vs) := ?c]"
  from safe have len: "length Dv = length ?vs" and q: "snd ` set pq \<subseteq> set ?vs"
    and dom: "dom Pv = set ?vs" and zero: "dist_of ?vs Dv s = 0"
    and range: "\<forall>x\<in>set ?vs. 0 \<le> dist_of ?vs Dv x \<and> dist_of ?vs Dv x \<le> DBL_MAX \<and>
        is_double (dist_of ?vs Dv x)"
    and reach: "\<forall>x\<in>set ?vs. dist_of ?vs Dv x < DBL_MAX \<longrightarrow> (s, x) \<in> (edge_rel g)\<^sup>*"
    and queued: "\<forall>x\<in>snd ` set pq. dist_of ?vs Dv x < DBL_MAX"
    and self: "\<forall>x\<in>set ?vs. Pv x = Some x \<longleftrightarrow> x = s \<or> \<not> dist_of ?vs Dv x < DBL_MAX"
    by (simp_all add: sp_safe_def)
  have D1: "dist_of ?vs ?Dv1 x = (if x = y then ?c else dist_of ?vs Dv x)"
    if "x \<in> set ?vs" for x
    using that y len by (rule dist_of_update)
  from range u have du: "0 \<le> dist_of ?vs Dv u" and ddu: "is_double (dist_of ?vs Dv u)"
    by blast+
  from range y have "dist_of ?vs Dv y \<le> DBL_MAX" by blast
  with better have cy: "?c < DBL_MAX" by simp
  from ddu du nonneg have ge: "dist_of ?vs Dv u \<le> ?c" by (rule dbl_add_ge)
  from ddu du nonneg have dc: "is_double ?c" by (rule is_double_dbl_add)
  from ge du have c0: "0 \<le> ?c" by simp
  have yu: "y \<noteq> u"
  proof
    assume "y = u"
    with better ge show False by simp
  qed
  have ys: "y \<noteq> s"
  proof
    assume "y = s"
    with better zero have "?c < 0" by simp
    with c0 show False by simp
  qed
  from reach u found have "(s, u) \<in> (edge_rel g)\<^sup>*" by blast
  from this edge have reach_y: "(s, y) \<in> (edge_rel g)\<^sup>*" by (rule rtrancl_into_rtrancl)
  show "dist_of ?vs ?Dv1 u = dist_of ?vs Dv u"
    using D1 [OF u] yu by simp
  show "sp_safe g s ?Dv1 (Pv(y \<mapsto> u)) (pq @ [(?c, y)])"
    unfolding sp_safe_def
  proof (intro conjI ballI)
    show "length ?Dv1 = length ?vs" using len by simp
    show "snd ` set (pq @ [(?c, y)]) \<subseteq> set ?vs" using q y by simp
    show "dom (Pv(y \<mapsto> u)) = set ?vs" using dom y by (simp add: insert_absorb)
    show "dist_of ?vs ?Dv1 s = 0"
      using D1 [OF s] ys zero by simp
  next
    fix x
    assume x: "x \<in> set ?vs"
    from range x have r: "0 \<le> dist_of ?vs Dv x" "dist_of ?vs Dv x \<le> DBL_MAX"
      "is_double (dist_of ?vs Dv x)" by blast+
    show "0 \<le> dist_of ?vs ?Dv1 x"
      using D1 [OF x] r c0 by (cases "x = y") simp_all
    show "dist_of ?vs ?Dv1 x \<le> DBL_MAX"
      using D1 [OF x] r cy by (cases "x = y") simp_all
    show "is_double (dist_of ?vs ?Dv1 x)"
      using D1 [OF x] r dc by (cases "x = y") simp_all
  next
    fix x
    assume x: "x \<in> set ?vs"
    from reach x have "dist_of ?vs Dv x < DBL_MAX \<longrightarrow> (s, x) \<in> (edge_rel g)\<^sup>*" by blast
    then show "dist_of ?vs ?Dv1 x < DBL_MAX \<longrightarrow> (s, x) \<in> (edge_rel g)\<^sup>*"
      using D1 [OF x] reach_y by (cases "x = y") simp_all
  next
    fix x
    assume x: "x \<in> snd ` set (pq @ [(?c, y)])"
    show "dist_of ?vs ?Dv1 x < DBL_MAX"
    proof (cases "x = y")
      case True
      with D1 [OF y] cy show ?thesis by simp
    next
      case False
      with x have xq: "x \<in> snd ` set pq" by auto
      with q have "x \<in> set ?vs" by blast
      moreover from queued xq have "dist_of ?vs Dv x < DBL_MAX" by blast
      ultimately show ?thesis using D1 [of x] False by simp
    qed
  next
    fix x
    assume x: "x \<in> set ?vs"
    show "(Pv(y \<mapsto> u)) x = Some x \<longleftrightarrow> x = s \<or> \<not> dist_of ?vs ?Dv1 x < DBL_MAX"
    proof (cases "x = y")
      case True
      have "(Pv(y \<mapsto> u)) y \<noteq> Some y" using yu by simp
      moreover have "dist_of ?vs ?Dv1 y < DBL_MAX" using D1 [OF y] cy by simp
      ultimately show ?thesis using True ys by simp
    next
      case False
      from self x have "Pv x = Some x \<longleftrightarrow> x = s \<or> \<not> dist_of ?vs Dv x < DBL_MAX" by blast
      moreover have "(Pv(y \<mapsto> u)) x = Pv x" using False by simp
      moreover have "dist_of ?vs ?Dv1 x = dist_of ?vs Dv x" using D1 [OF x] False by simp
      ultimately show ?thesis by simp
    qed
  qed
qed

lemma relax_edges_safe:
  assumes "wf_Digraph g" and "u \<in> set (g_v g)"
    and "\<forall>it\<in>set (out_of (g_m g) u). 0 \<le> wt (einfo it)" and "s \<in> set (g_v g)"
  shows "set es \<subseteq> set (out_of (g_m g) u) \<Longrightarrow> sp_safe g s Dv Pv pq \<Longrightarrow>
     dist_of (g_v g) Dv u < DBL_MAX \<Longrightarrow>
     relax_edges g wt (g_v g) u (indexOf u (g_v g)) es (Dv, Pv, pq) = Inr (Dv', Pv', pq') \<Longrightarrow>
     sp_safe g s Dv' Pv' pq' \<and> dist_of (g_v g) Dv' u = dist_of (g_v g) Dv u"
proof (induction es arbitrary: Dv Pv pq)
  case Nil
  then show ?case by simp
next
  case (Cons edge rest)
  let ?vs = "g_v g"
  let ?y = "toVertex edge"
  let ?c = "dbl_add (dist_of ?vs Dv u) (wt (einfo edge))"
  from Cons.prems(1) have edge: "edge \<in> set (out_of (g_m g) u)"
    and rest: "set rest \<subseteq> set (out_of (g_m g) u)" by auto
  have y: "?y \<in> set ?vs" using wf_edge [OF assms(1,2) edge] by simp
  have len: "length Dv = length ?vs" using Cons.prems(2) by (simp add: sp_safe_def)
  note step = relax_edges_step [OF assms(1,2) edge len, of wt rest Pv pq]
  have nonneg: "0 \<le> wt (einfo edge)" using assms(3) edge by simp
  have uy: "(u, ?y) \<in> edge_rel g"
    using edge by (auto simp: edge_rel_def succs_def)
  show ?case
  proof (cases "dist_of ?vs Dv ?y > ?c")
    case False
    with step Cons.prems(4)
    have "relax_edges g wt ?vs u (indexOf u ?vs) rest (Dv, Pv, pq) = Inr (Dv', Pv', pq')"
      by simp
    from Cons.IH [OF rest Cons.prems(2,3) this] show ?thesis .
  next
    case True
    let ?Dv1 = "Dv[nat (indexOf ?y ?vs) := ?c]"
    from step True Cons.prems(4)
    have run: "relax_edges g wt ?vs u (indexOf u ?vs) rest
        (?Dv1, Pv(?y \<mapsto> u), pq @ [(?c, ?y)]) = Inr (Dv', Pv', pq')"
      by simp
    note upd = sp_safe_update [OF Cons.prems(2) assms(4,2) y uy Cons.prems(3) nonneg True]
    from upd(2) Cons.prems(3) have "dist_of ?vs ?Dv1 u < DBL_MAX" by simp
    from Cons.IH [OF rest upd(1) this run] upd(2) show ?thesis by simp
  qed
qed

text \<open>
  The second part of the invariant is about the sums the loop computes. \<open>path_sum g wt s
  xs x d\<close> says that the graph has a path from \<open>s\<close> to \<open>x\<close> that visits no vertex twice,
  that \<open>xs\<close> are the vertices before \<open>x\<close> on it, the latest first, and that \<open>d\<close> is what
  the weights of its edges add up to when they are added to 0 one after the other in
  the arithmetic of doubles.
\<close>

inductive path_sum ::
  "('v, 'e) Digraph \<Rightarrow> ('e \<Rightarrow> real) \<Rightarrow> int \<Rightarrow> int list \<Rightarrow> int \<Rightarrow> real \<Rightarrow> bool"
  for g :: "('v, 'e) Digraph" and wt :: "'e \<Rightarrow> real" and s :: int where
  at_start: "path_sum g wt s [] s 0"
| along: "path_sum g wt s xs u d \<Longrightarrow> it \<in> set (out_of (g_m g) u) \<Longrightarrow>
     toVertex it \<notin> set (u # xs) \<Longrightarrow>
     path_sum g wt s (u # xs) (toVertex it) (dbl_add d (wt (einfo it)))"

code_pred path_sum .

text \<open>
  When every such sum stays below \<open>DBL_MAX\<close>, the loop keeps this: a vertex with a
  distance below \<open>DBL_MAX\<close> has been visited or waits in the queue, a visited vertex and
  all its successors have such a distance, and the distance of a vertex that waits is
  the sum along a path through visited vertices.
\<close>

definition sp_full ::
  "('v, 'e) Digraph \<Rightarrow> ('e \<Rightarrow> real) \<Rightarrow> int \<Rightarrow> bool list \<Rightarrow> real list \<Rightarrow> (real \<times> int) list \<Rightarrow>
     bool" where
  "sp_full g wt s Kv Dv pq \<longleftrightarrow>
     (\<forall>x\<in>set (g_v g). dist_of (g_v g) Dv x < DBL_MAX \<longrightarrow>
        done_of (g_v g) Kv x \<or> x \<in> snd ` set pq) \<and>
     (\<forall>x\<in>set (g_v g). done_of (g_v g) Kv x \<longrightarrow>
        dist_of (g_v g) Dv x < DBL_MAX \<and> (\<forall>y\<in>succs g x. dist_of (g_v g) Dv y < DBL_MAX)) \<and>
     (\<forall>x\<in>set (g_v g). \<not> done_of (g_v g) Kv x \<and> dist_of (g_v g) Dv x < DBL_MAX \<longrightarrow>
        (\<exists>xs. path_sum g wt s xs x (dist_of (g_v g) Dv x) \<and>
              (\<forall>y\<in>set xs. y \<in> set (g_v g) \<and> done_of (g_v g) Kv y)))"

lemma relax_edges_full:
  fixes K :: "int \<Rightarrow> bool"
  assumes wf: "wf_Digraph g" and u: "u \<in> set (g_v g)"
    and nn: "\<forall>it\<in>set (out_of (g_m g) u). 0 \<le> wt (einfo it)"
    and sums: "\<forall>xs x c. path_sum g wt s xs x c \<longrightarrow> c < DBL_MAX"
    and pu: "path_sum g wt s xu u d" and xu: "\<forall>y\<in>set xu. y \<in> set (g_v g) \<and> K y"
    and Ku: "K u" and dd: "is_double d" and d0: "0 \<le> d"
  shows "set es \<subseteq> set (out_of (g_m g) u) \<Longrightarrow> length Dv = length (g_v g) \<Longrightarrow>
     dist_of (g_v g) Dv u = d \<Longrightarrow>
     \<forall>x\<in>set (g_v g). dist_of (g_v g) Dv x < DBL_MAX \<longrightarrow> K x \<or> x \<in> snd ` set pq \<Longrightarrow>
     \<forall>x\<in>set (g_v g). \<not> K x \<and> dist_of (g_v g) Dv x < DBL_MAX \<longrightarrow>
        (\<exists>xs. path_sum g wt s xs x (dist_of (g_v g) Dv x) \<and>
              (\<forall>y\<in>set xs. y \<in> set (g_v g) \<and> K y)) \<Longrightarrow>
     \<forall>x\<in>set (g_v g). K x \<longrightarrow> dist_of (g_v g) Dv x < DBL_MAX \<Longrightarrow>
     relax_edges g wt (g_v g) u (indexOf u (g_v g)) es (Dv, Pv, pq) = Inr (Dv', Pv', pq') \<Longrightarrow>
     (\<forall>x\<in>set (g_v g). dist_of (g_v g) Dv' x < DBL_MAX \<longrightarrow> K x \<or> x \<in> snd ` set pq') \<and>
     (\<forall>x\<in>set (g_v g). \<not> K x \<and> dist_of (g_v g) Dv' x < DBL_MAX \<longrightarrow>
        (\<exists>xs. path_sum g wt s xs x (dist_of (g_v g) Dv' x) \<and>
              (\<forall>y\<in>set xs. y \<in> set (g_v g) \<and> K y))) \<and>
     (\<forall>x\<in>set (g_v g). K x \<longrightarrow> dist_of (g_v g) Dv' x < DBL_MAX) \<and>
     (\<forall>x\<in>set (g_v g). dist_of (g_v g) Dv x < DBL_MAX \<longrightarrow> dist_of (g_v g) Dv' x < DBL_MAX) \<and>
     (\<forall>it\<in>set es. dist_of (g_v g) Dv' (toVertex it) < DBL_MAX)"
proof (induction es arbitrary: Dv Pv pq)
  case Nil
  then show ?case by simp
next
  case (Cons edge rest)
  let ?vs = "g_v g"
  let ?y = "toVertex edge"
  let ?c = "dbl_add (dist_of ?vs Dv u) (wt (einfo edge))"
  from Cons.prems(1) have edge: "edge \<in> set (out_of (g_m g) u)"
    and rest: "set rest \<subseteq> set (out_of (g_m g) u)" by auto
  have y: "?y \<in> set ?vs" using wf_edge [OF wf u edge] by simp
  note len = Cons.prems(2)
  note du = Cons.prems(3)
  note step = relax_edges_step [OF wf u edge len, of wt rest Pv pq]
  have nonneg: "0 \<le> wt (einfo edge)" using nn edge by simp
  have ge: "d \<le> ?c" unfolding du using dd d0 nonneg by (rule dbl_add_ge)
  have fresh: "?c < DBL_MAX" "path_sum g wt s (u # xu) ?y ?c \<and>
      (\<forall>z\<in>set (u # xu). z \<in> set ?vs \<and> K z)" if "\<not> K ?y"
  proof -
    from that xu Ku have "?y \<notin> set (u # xu)" by auto
    with pu edge have p: "path_sum g wt s (u # xu) ?y ?c" unfolding du by (rule path_sum.along)
    with sums show "?c < DBL_MAX" by blast
    from p xu Ku u show "path_sum g wt s (u # xu) ?y ?c \<and>
      (\<forall>z\<in>set (u # xu). z \<in> set ?vs \<and> K z)" by simp
  qed
  from Cons.prems(6) y have known: "dist_of ?vs Dv ?y < DBL_MAX" if "K ?y"
    using that by blast
  show ?case
  proof (cases "dist_of ?vs Dv ?y > ?c")
    case False
    with step Cons.prems(7)
    have run: "relax_edges g wt ?vs u (indexOf u ?vs) rest (Dv, Pv, pq) = Inr (Dv', Pv', pq')"
      by simp
    note IH = Cons.IH [OF rest len du Cons.prems(4,5,6) run]
    have "dist_of ?vs Dv ?y < DBL_MAX"
    proof (cases "K ?y")
      case True
      then show ?thesis by (rule known)
    next
      case no: False
      from fresh(1) [OF no] False show ?thesis by simp
    qed
    with IH y have "dist_of ?vs Dv' ?y < DBL_MAX" by blast
    with IH show ?thesis by simp
  next
    case True
    let ?Dv1 = "Dv[nat (indexOf ?y ?vs) := ?c]"
    let ?pq1 = "pq @ [(?c, ?y)]"
    from step True Cons.prems(7)
    have run: "relax_edges g wt ?vs u (indexOf u ?vs) rest
        (?Dv1, Pv(?y \<mapsto> u), ?pq1) = Inr (Dv', Pv', pq')"
      by simp
    have D1: "dist_of ?vs ?Dv1 x = (if x = ?y then ?c else dist_of ?vs Dv x)"
      if "x \<in> set ?vs" for x
      using that y len by (rule dist_of_update)
    have yu: "?y \<noteq> u"
    proof
      assume "?y = u"
      with True du ge show False by simp
    qed
    have c: "?c < DBL_MAX"
    proof (cases "K ?y")
      case True
      from known [OF True] \<open>dist_of ?vs Dv ?y > ?c\<close> show ?thesis by simp
    next
      case False
      then show ?thesis by (rule fresh(1))
    qed
    have len1: "length ?Dv1 = length ?vs" using len by simp
    have d1: "dist_of ?vs ?Dv1 u = d" using D1 [OF u] yu du by simp
    have q1: "\<forall>x\<in>set ?vs. dist_of ?vs ?Dv1 x < DBL_MAX \<longrightarrow> K x \<or> x \<in> snd ` set ?pq1"
    proof
      fix x
      assume x: "x \<in> set ?vs"
      show "dist_of ?vs ?Dv1 x < DBL_MAX \<longrightarrow> K x \<or> x \<in> snd ` set ?pq1"
      proof (cases "x = ?y")
        case True
        then show ?thesis by simp
      next
        case False
        from Cons.prems(4) x
        have "dist_of ?vs Dv x < DBL_MAX \<longrightarrow> K x \<or> x \<in> snd ` set pq" by (rule bspec)
        with D1 [OF x] False show ?thesis by auto
      qed
    qed
    have p1: "\<forall>x\<in>set ?vs. \<not> K x \<and> dist_of ?vs ?Dv1 x < DBL_MAX \<longrightarrow>
        (\<exists>xs. path_sum g wt s xs x (dist_of ?vs ?Dv1 x) \<and> (\<forall>z\<in>set xs. z \<in> set ?vs \<and> K z))"
    proof
      fix x
      assume x: "x \<in> set ?vs"
      show "\<not> K x \<and> dist_of ?vs ?Dv1 x < DBL_MAX \<longrightarrow>
        (\<exists>xs. path_sum g wt s xs x (dist_of ?vs ?Dv1 x) \<and> (\<forall>z\<in>set xs. z \<in> set ?vs \<and> K z))"
      proof (cases "x = ?y")
        case True
        show ?thesis
        proof
          assume "\<not> K x \<and> dist_of ?vs ?Dv1 x < DBL_MAX"
          with True have "\<not> K ?y" by simp
          from fresh(2) [OF this] D1 [OF y] True
          show "\<exists>xs. path_sum g wt s xs x (dist_of ?vs ?Dv1 x) \<and>
              (\<forall>z\<in>set xs. z \<in> set ?vs \<and> K z)"
            by (intro exI [of _ "u # xu"]) simp
        qed
      next
        case False
        from Cons.prems(5) x
        have "\<not> K x \<and> dist_of ?vs Dv x < DBL_MAX \<longrightarrow>
          (\<exists>xs. path_sum g wt s xs x (dist_of ?vs Dv x) \<and> (\<forall>z\<in>set xs. z \<in> set ?vs \<and> K z))"
          by (rule bspec)
        with D1 [OF x] False show ?thesis by simp
      qed
    qed
    have k1: "\<forall>x\<in>set ?vs. K x \<longrightarrow> dist_of ?vs ?Dv1 x < DBL_MAX"
    proof
      fix x
      assume x: "x \<in> set ?vs"
      from Cons.prems(6) x have "K x \<longrightarrow> dist_of ?vs Dv x < DBL_MAX" by (rule bspec)
      with D1 [OF x] c show "K x \<longrightarrow> dist_of ?vs ?Dv1 x < DBL_MAX" by simp
    qed
    note IH = Cons.IH [OF rest len1 d1 q1 p1 k1 run]
    have keep: "\<forall>x\<in>set ?vs. dist_of ?vs Dv x < DBL_MAX \<longrightarrow> dist_of ?vs Dv' x < DBL_MAX"
    proof (intro ballI impI)
      fix x
      assume x: "x \<in> set ?vs" and "dist_of ?vs Dv x < DBL_MAX"
      with D1 [OF x] c have "dist_of ?vs ?Dv1 x < DBL_MAX" by simp
      with IH x show "dist_of ?vs Dv' x < DBL_MAX" by blast
    qed
    have "dist_of ?vs ?Dv1 ?y < DBL_MAX" using D1 [OF y] c by simp
    with IH y have "dist_of ?vs Dv' ?y < DBL_MAX" by blast
    with IH keep show ?thesis by simp
  qed
qed

lemma pq_pop_keeps:
  assumes "x \<in> snd ` set pq" and "x \<noteq> snd (pq_top pq)"
  shows "x \<in> snd ` set (pq_pop pq)"
proof -
  from assms(1) obtain p where p: "p \<in> set pq" "snd p = x" by auto
  with assms(2) have "p \<noteq> pq_top pq" by auto
  with p(1) have "p \<in> set (pq_pop pq)" by (simp add: pq_pop_def)
  with p(2) show ?thesis by force
qed

lemma out_edge_in_all:
  "u \<in> set (g_v g) \<Longrightarrow> it \<in> set (out_of (g_m g) u) \<Longrightarrow> it \<in> set (all_edges g)"
  by (auto simp: all_edges_def)

lemma sp_safe_pop:
  assumes "sp_safe g s Dv Pv pq"
  shows "sp_safe g s Dv Pv (pq_pop pq)"
proof -
  have sub: "snd ` set (pq_pop pq) \<subseteq> snd ` set pq"
    using set_pq_pop [of pq] by (rule image_mono)
  from assms have "snd ` set pq \<subseteq> set (g_v g)"
    and "\<forall>x\<in>snd ` set pq. dist_of (g_v g) Dv x < DBL_MAX"
    by (simp_all add: sp_safe_def)
  with sub have "snd ` set (pq_pop pq) \<subseteq> set (g_v g)"
    and "\<forall>x\<in>snd ` set (pq_pop pq). dist_of (g_v g) Dv x < DBL_MAX"
    by blast+
  with assms show ?thesis unfolding sp_safe_def by simp
qed


lemma sp_loop_inv:
  "wf_Digraph g \<Longrightarrow> vs = g_v g \<Longrightarrow> s \<in> set vs \<Longrightarrow>
   \<forall>it\<in>set (all_edges g). 0 \<le> wt (einfo it) \<Longrightarrow>
   (b \<longrightarrow> (\<forall>xs x c. path_sum g wt s xs x c \<longrightarrow> c < DBL_MAX)) \<Longrightarrow>
   length Kv = length vs \<Longrightarrow> sp_safe g s Dv Pv pq \<Longrightarrow> (b \<longrightarrow> sp_full g wt s Kv Dv pq) \<Longrightarrow>
   sp_loop g wt vs (Kv, Dv, Pv, pq) = Inr P \<Longrightarrow>
   \<exists>Kv' Dv'. sp_safe g s Dv' P [] \<and> (b \<longrightarrow> sp_full g wt s Kv' Dv' [])"
proof (induction g wt vs "(Kv, Dv, Pv, pq)" arbitrary: Kv Dv Pv pq rule: sp_loop.induct)
  case (1 g wt vs Kv Dv Pv pq)
  note wf = "1.prems"(1) and vs = "1.prems"(2) and s = "1.prems"(3) and nn = "1.prems"(4)
    and bd = "1.prems"(5) and lenK = "1.prems"(6) and safe = "1.prems"(7)
    and full = "1.prems"(8) and run = "1.prems"(9)
  show ?case
  proof (cases "pq = []")
    case True
    with run have "P = Pv" by (simp add: sp_loop.simps)
    with True safe full show ?thesis by blast
  next
    case False
    let ?u = "snd (pq_top pq)"
    let ?i = "indexOf ?u vs"
    from safe have q: "snd ` set pq \<subseteq> set vs" and lenD: "length Dv = length vs"
      and queued: "\<forall>x\<in>snd ` set pq. dist_of vs Dv x < DBL_MAX"
      unfolding vs by (simp_all add: sp_safe_def)
    have uq: "?u \<in> snd ` set pq" using pq_top_in [OF False] by (rule imageI)
    with q have u: "?u \<in> set vs" by blast
    from queued uq have du: "dist_of vs Dv ?u < DBL_MAX" by (rule bspec)
    have bi: "in_bounds ?i Kv" using u lenK by (rule in_bounds_indexOf)
    show ?thesis
    proof (cases "Kv ! nat ?i")
      case True
      then have visited: "Kv ! nat ?i \<noteq> False" by simp
      from run False bi True have run1: "sp_loop g wt vs (Kv, Dv, Pv, pq_pop pq) = Inr P"
        by (subst (asm) sp_loop.simps) (simp add: Let_def)
      have safe1: "sp_safe g s Dv Pv (pq_pop pq)" using safe by (rule sp_safe_pop)
      have full1: "b \<longrightarrow> sp_full g wt s Kv Dv (pq_pop pq)"
      proof
        assume b
        with full have f: "sp_full g wt s Kv Dv pq" by simp
        have "\<forall>x\<in>set (g_v g). dist_of (g_v g) Dv x < DBL_MAX \<longrightarrow>
            done_of (g_v g) Kv x \<or> x \<in> snd ` set (pq_pop pq)"
        proof (intro ballI impI)
          fix x
          assume x: "x \<in> set (g_v g)" and "dist_of (g_v g) Dv x < DBL_MAX"
          with f have c: "done_of (g_v g) Kv x \<or> x \<in> snd ` set pq"
            unfolding sp_full_def by blast
          show "done_of (g_v g) Kv x \<or> x \<in> snd ` set (pq_pop pq)"
          proof (cases "x = ?u")
            case True
            with \<open>Kv ! nat ?i\<close> show ?thesis by (simp add: done_of_def vs)
          next
            case False
            with c pq_pop_keeps [of x pq] show ?thesis by blast
          qed
        qed
        with f show "sp_full g wt s Kv Dv (pq_pop pq)" unfolding sp_full_def by simp
      qed
      from "1.hyps"(2) [OF False refl refl refl bi visited wf vs s nn bd lenK safe1 full1 run1]
      show ?thesis .
    next
      case unvisited: False
      then have unv: "Kv ! nat ?i = False" by simp
      from u vs wf_lookup [OF wf] obtain dv where dv: "g_m g ?u = Some dv" by blast
      have out: "out_of (g_m g) ?u = edges dv" using dv by (rule out_of_Some)
      have sub_pop: "snd ` set (pq_pop pq) \<subseteq> set (g_v g)"
        using set_pq_pop [of pq] q unfolding vs by blast
      from relax_edges_returns [OF wf, of ?u "edges dv" Dv "pq_pop pq" wt Pv]
      obtain Dv' Pv' pq' where
        relax: "relax_edges g wt vs ?u ?i (edges dv) (Dv, Pv, pq_pop pq) = Inr (Dv', Pv', pq')"
        and lenD': "length Dv' = length vs"
        using u out sub_pop lenD unfolding vs by auto
      from run False bi unv dv relax
      have run1: "sp_loop g wt vs (Kv[nat ?i := True], Dv', Pv', pq') = Inr P"
        by (subst (asm) sp_loop.simps) (simp add: Let_def)
      have nn_u: "\<forall>it\<in>set (out_of (g_m g) ?u). 0 \<le> wt (einfo it)"
        using nn out_edge_in_all [of ?u g] u unfolding vs by blast
      have ug: "?u \<in> set (g_v g)" and sg: "s \<in> set (g_v g)" using u s unfolding vs by simp_all
      have dug: "dist_of (g_v g) Dv ?u < DBL_MAX" using du unfolding vs .
      have relaxg: "relax_edges g wt (g_v g) ?u (indexOf ?u (g_v g)) (edges dv) (Dv, Pv, pq_pop pq) =
          Inr (Dv', Pv', pq')"
        using relax unfolding vs .
      have safe1: "sp_safe g s Dv' Pv' pq'"
        using relax_edges_safe [OF wf ug nn_u sg _ sp_safe_pop [OF safe] dug relaxg] out
        by simp
      have lenK1: "length (Kv[nat ?i := True]) = length vs" using lenK by simp
      have full1: "b \<longrightarrow> sp_full g wt s (Kv[nat ?i := True]) Dv' pq'"
      proof
        assume b
        with full bd have f: "sp_full g wt s Kv Dv pq"
          and sums: "\<forall>xs x c. path_sum g wt s xs x c \<longrightarrow> c < DBL_MAX" by simp_all
        let ?Kv1 = "Kv[nat (indexOf ?u (g_v g)) := True]"
        let ?K1 = "done_of (g_v g) ?Kv1"
        have lenKg: "length Kv = length (g_v g)" using lenK unfolding vs .
        have K1: "?K1 x = (if x = ?u then True else done_of (g_v g) Kv x)"
          if "x \<in> set (g_v g)" for x
          using that ug lenKg by (rule done_of_update)
        have not_done: "\<not> done_of (g_v g) Kv ?u"
          using unvisited by (simp add: done_of_def vs)
        from f have f1: "\<forall>x\<in>set (g_v g). dist_of (g_v g) Dv x < DBL_MAX \<longrightarrow>
              done_of (g_v g) Kv x \<or> x \<in> snd ` set pq"
          and f2: "\<forall>x\<in>set (g_v g). done_of (g_v g) Kv x \<longrightarrow>
              dist_of (g_v g) Dv x < DBL_MAX \<and> (\<forall>y\<in>succs g x. dist_of (g_v g) Dv y < DBL_MAX)"
          and f3: "\<forall>x\<in>set (g_v g). \<not> done_of (g_v g) Kv x \<and> dist_of (g_v g) Dv x < DBL_MAX \<longrightarrow>
              (\<exists>xs. path_sum g wt s xs x (dist_of (g_v g) Dv x) \<and>
                    (\<forall>y\<in>set xs. y \<in> set (g_v g) \<and> done_of (g_v g) Kv y))"
          unfolding sp_full_def by blast+
        from f3 ug not_done dug obtain xu where
          pu: "path_sum g wt s xu ?u (dist_of (g_v g) Dv ?u)"
          and xu0: "\<forall>y\<in>set xu. y \<in> set (g_v g) \<and> done_of (g_v g) Kv y" by blast
        have xu: "\<forall>y\<in>set xu. y \<in> set (g_v g) \<and> ?K1 y"
        proof
          fix y
          assume "y \<in> set xu"
          with xu0 have yv: "y \<in> set (g_v g)" and "done_of (g_v g) Kv y" by blast+
          with K1 [OF yv] show "y \<in> set (g_v g) \<and> ?K1 y" by simp
        qed
        have Ku: "?K1 ?u" using K1 [OF ug] by simp
        from safe ug have dd: "is_double (dist_of (g_v g) Dv ?u)"
          and d0: "0 \<le> dist_of (g_v g) Dv ?u"
          unfolding sp_safe_def by blast+
        have pre1: "\<forall>x\<in>set (g_v g). dist_of (g_v g) Dv x < DBL_MAX \<longrightarrow>
            ?K1 x \<or> x \<in> snd ` set (pq_pop pq)"
        proof (intro ballI impI)
          fix x
          assume x: "x \<in> set (g_v g)" and "dist_of (g_v g) Dv x < DBL_MAX"
          with f1 have c: "done_of (g_v g) Kv x \<or> x \<in> snd ` set pq" by blast
          show "?K1 x \<or> x \<in> snd ` set (pq_pop pq)"
          proof (cases "x = ?u")
            case True
            with K1 [OF x] show ?thesis by simp
          next
            case False
            with c pq_pop_keeps [of x pq] K1 [OF x] show ?thesis by auto
          qed
        qed
        have pre2: "\<forall>x\<in>set (g_v g). \<not> ?K1 x \<and> dist_of (g_v g) Dv x < DBL_MAX \<longrightarrow>
            (\<exists>xs. path_sum g wt s xs x (dist_of (g_v g) Dv x) \<and>
                  (\<forall>y\<in>set xs. y \<in> set (g_v g) \<and> ?K1 y))"
        proof (intro ballI impI)
          fix x
          assume x: "x \<in> set (g_v g)" and a: "\<not> ?K1 x \<and> dist_of (g_v g) Dv x < DBL_MAX"
          with K1 [OF x] have "\<not> done_of (g_v g) Kv x" by (cases "x = ?u") simp_all
          with f3 x a obtain xs where p: "path_sum g wt s xs x (dist_of (g_v g) Dv x)"
            and d: "\<forall>y\<in>set xs. y \<in> set (g_v g) \<and> done_of (g_v g) Kv y" by blast
          have "\<forall>y\<in>set xs. y \<in> set (g_v g) \<and> ?K1 y"
          proof
            fix y
            assume "y \<in> set xs"
            with d have yv: "y \<in> set (g_v g)" and "done_of (g_v g) Kv y" by blast+
            with K1 [OF yv] show "y \<in> set (g_v g) \<and> ?K1 y" by simp
          qed
          with p show "\<exists>xs. path_sum g wt s xs x (dist_of (g_v g) Dv x) \<and>
                  (\<forall>y\<in>set xs. y \<in> set (g_v g) \<and> ?K1 y)" by blast
        qed
        have pre3: "\<forall>x\<in>set (g_v g). ?K1 x \<longrightarrow> dist_of (g_v g) Dv x < DBL_MAX"
        proof (intro ballI impI)
          fix x
          assume x: "x \<in> set (g_v g)" and k: "?K1 x"
          show "dist_of (g_v g) Dv x < DBL_MAX"
          proof (cases "x = ?u")
            case True
            with dug show ?thesis by simp
          next
            case False
            with K1 [OF x] k have "done_of (g_v g) Kv x" by simp
            with f2 x show ?thesis by blast
          qed
        qed
        have lenDg: "length Dv = length (g_v g)" using lenD unfolding vs .
        from relax_edges_full [OF wf ug nn_u sums pu xu Ku dd d0 _ lenDg refl pre1 pre2 pre3 relaxg]
          out
        have post1: "\<forall>x\<in>set (g_v g). dist_of (g_v g) Dv' x < DBL_MAX \<longrightarrow>
              ?K1 x \<or> x \<in> snd ` set pq'"
          and post2: "\<forall>x\<in>set (g_v g). \<not> ?K1 x \<and> dist_of (g_v g) Dv' x < DBL_MAX \<longrightarrow>
              (\<exists>xs. path_sum g wt s xs x (dist_of (g_v g) Dv' x) \<and>
                    (\<forall>y\<in>set xs. y \<in> set (g_v g) \<and> ?K1 y))"
          and post3: "\<forall>x\<in>set (g_v g). ?K1 x \<longrightarrow> dist_of (g_v g) Dv' x < DBL_MAX"
          and keep: "\<forall>x\<in>set (g_v g). dist_of (g_v g) Dv x < DBL_MAX \<longrightarrow>
              dist_of (g_v g) Dv' x < DBL_MAX"
          and dests: "\<forall>it\<in>set (edges dv). dist_of (g_v g) Dv' (toVertex it) < DBL_MAX"
          by simp_all
        have post4: "\<forall>x\<in>set (g_v g). ?K1 x \<longrightarrow>
            dist_of (g_v g) Dv' x < DBL_MAX \<and> (\<forall>y\<in>succs g x. dist_of (g_v g) Dv' y < DBL_MAX)"
        proof (intro ballI impI conjI)
          fix x
          assume x: "x \<in> set (g_v g)" and k: "?K1 x"
          from post3 x k show "dist_of (g_v g) Dv' x < DBL_MAX" by blast
        next
          fix x y
          assume x: "x \<in> set (g_v g)" and k: "?K1 x" and y: "y \<in> succs g x"
          show "dist_of (g_v g) Dv' y < DBL_MAX"
          proof (cases "x = ?u")
            case True
            with y out obtain it where "it \<in> set (edges dv)" "y = toVertex it"
              by (auto simp: succs_def)
            with dests show ?thesis by simp
          next
            case False
            with K1 [OF x] k have "done_of (g_v g) Kv x" by simp
            with f2 x y have "dist_of (g_v g) Dv y < DBL_MAX" by blast
            moreover from succs_in [OF wf x] y have "y \<in> set (g_v g)" by blast
            ultimately show ?thesis using keep by blast
          qed
        qed
        from post1 post2 post4 show "sp_full g wt s (Kv[nat ?i := True]) Dv' pq'"
          unfolding sp_full_def vs by simp
      qed
      from "1.hyps"(1) [OF False refl refl refl bi unv dv relax refl refl
          wf vs s nn bd lenK1 safe1 full1 run1]
      show ?thesis .
    qed
  qed
qed

lemma fold_self:
  "fold (\<lambda>vertex P. P(vertex \<mapsto> vertex)) vs P0 x = (if x \<in> set vs then Some x else P0 x)"
  by (induction vs arbitrary: P0) auto

lemma dist_of_replicate:
  "x \<in> set vs \<Longrightarrow> dist_of vs (replicate (length vs) c) x = c"
  using nat_indexOf_less [of x vs] by (simp add: dist_of_def)

lemma done_of_replicate:
  "x \<in> set vs \<Longrightarrow> done_of vs (replicate (length vs) c) x = c"
  using nat_indexOf_less [of x vs] by (simp add: done_of_def)

lemma dist_of_initial:
  assumes "x \<in> set vs" and "s \<in> set vs"
  shows "dist_of vs ((replicate (length vs) DBL_MAX)[nat (indexOf s vs) := 0]) x =
           (if x = s then 0 else DBL_MAX)"
  using dist_of_update [OF assms, of "replicate (length vs) DBL_MAX" 0] dist_of_replicate [OF assms(1)]
  by simp

lemma sp_safe_initial:
  assumes "s \<in> set (g_v g)"
  shows "sp_safe g s ((replicate (length (g_v g)) DBL_MAX)[nat (indexOf s (g_v g)) := 0])
           (fold (\<lambda>vertex P. P(vertex \<mapsto> vertex)) (g_v g) Map.empty) (pq_push (0, s) [])"
  unfolding sp_safe_def
proof (intro conjI ballI)
  let ?Dv0 = "(replicate (length (g_v g)) DBL_MAX)[nat (indexOf s (g_v g)) := 0]"
  let ?Pv0 = "fold (\<lambda>vertex P. P(vertex \<mapsto> vertex)) (g_v g) Map.empty"
  show "length ?Dv0 = length (g_v g)" by simp
  show "snd ` set (pq_push (0, s) []) \<subseteq> set (g_v g)" using assms by (simp add: pq_push_def)
  show "dom ?Pv0 = set (g_v g)" by (auto simp: fold_self dom_def)
  show "dist_of (g_v g) ?Dv0 s = 0" using dist_of_initial [OF assms assms] by simp
  show "0 \<le> dist_of (g_v g) ?Dv0 x" if "x \<in> set (g_v g)" for x
    using dist_of_initial [OF that assms] DBL_MAX_pos by simp
  show "dist_of (g_v g) ?Dv0 x \<le> DBL_MAX" if "x \<in> set (g_v g)" for x
    using dist_of_initial [OF that assms] DBL_MAX_pos by simp
  show "is_double (dist_of (g_v g) ?Dv0 x)" if "x \<in> set (g_v g)" for x
    using dist_of_initial [OF that assms] is_double_0 is_double_DBL_MAX by simp
  show "dist_of (g_v g) ?Dv0 x < DBL_MAX \<longrightarrow> (s, x) \<in> (edge_rel g)\<^sup>*"
    if "x \<in> set (g_v g)" for x
    using dist_of_initial [OF that assms] by (cases "x = s") simp_all
  show "dist_of (g_v g) ?Dv0 x < DBL_MAX" if "x \<in> snd ` set (pq_push (0, s) [])" for x
  proof -
    from that have "x = s" by (simp add: pq_push_def)
    with dist_of_initial [OF assms assms] DBL_MAX_pos show ?thesis by simp
  qed
  show "?Pv0 x = Some x \<longleftrightarrow> x = s \<or> \<not> dist_of (g_v g) ?Dv0 x < DBL_MAX"
    if "x \<in> set (g_v g)" for x
    using dist_of_initial [OF that assms] that by (cases "x = s") (simp_all add: fold_self)
qed

lemma sp_full_initial:
  assumes "s \<in> set (g_v g)"
  shows "sp_full g wt s (replicate (length (g_v g)) False)
           ((replicate (length (g_v g)) DBL_MAX)[nat (indexOf s (g_v g)) := 0])
           (pq_push (0, s) [])"
  unfolding sp_full_def
proof (intro conjI ballI impI)
  let ?Dv0 = "(replicate (length (g_v g)) DBL_MAX)[nat (indexOf s (g_v g)) := 0]"
  let ?Kv0 = "replicate (length (g_v g)) False"
  fix x
  assume x: "x \<in> set (g_v g)"
  have never: "\<not> done_of (g_v g) ?Kv0 x" using done_of_replicate [OF x, of False] by simp
  {
    assume "dist_of (g_v g) ?Dv0 x < DBL_MAX"
    with dist_of_initial [OF x assms] have xs: "x = s" by (cases "x = s") simp_all
    then show "done_of (g_v g) ?Kv0 x \<or> x \<in> snd ` set (pq_push (0, s) [])"
      by (simp add: pq_push_def)
  }
  {
    assume "done_of (g_v g) ?Kv0 x"
    with never show "dist_of (g_v g) ?Dv0 x < DBL_MAX" by simp
  }
  {
    fix y
    assume "done_of (g_v g) ?Kv0 x"
    with never show "dist_of (g_v g) ?Dv0 y < DBL_MAX" by simp
  }
  {
    assume "\<not> done_of (g_v g) ?Kv0 x \<and> dist_of (g_v g) ?Dv0 x < DBL_MAX"
    with dist_of_initial [OF x assms] have xs: "x = s" by (cases "x = s") simp_all
    have "path_sum g wt s [] s 0" by (rule path_sum.at_start)
    with xs dist_of_initial [OF assms assms]
    show "\<exists>xs. path_sum g wt s xs x (dist_of (g_v g) ?Dv0 x) \<and>
        (\<forall>y\<in>set xs. y \<in> set (g_v g) \<and> done_of (g_v g) ?Kv0 y)"
      by (intro exI [of _ "[]"]) simp
  }
qed

lemma discovered_closed:
  assumes "wf_Digraph g" and "s \<in> set (g_v g)" and "sp_safe g s Dv P []"
    and "sp_full g wt s Kv Dv []" and "(s, x) \<in> (edge_rel g)\<^sup>*"
  shows "x \<in> set (g_v g) \<and> dist_of (g_v g) Dv x < DBL_MAX"
  using assms(5)
proof (induction rule: rtrancl_induct)
  case base
  from assms(3) have "dist_of (g_v g) Dv s = 0" by (simp add: sp_safe_def)
  with assms(2) DBL_MAX_pos show ?case by simp
next
  case (step a c)
  from step.IH assms(4) have "done_of (g_v g) Kv a" unfolding sp_full_def by auto
  moreover from step.hyps(2) have c: "c \<in> succs g a" by (simp add: edge_rel_def)
  ultimately have "dist_of (g_v g) Dv c < DBL_MAX"
    using assms(4) step.IH unfolding sp_full_def by blast
  moreover from succs_in [OF assms(1), of a] step.IH c have "c \<in> set (g_v g)" by blast
  ultimately show ?case by simp
qed



text \<open>
  C2 as stated fails. The code takes \<open>DBL_MAX\<close> for "no distance yet" and relaxes an
  edge only when the new distance is smaller. On the graph with the single edge 1\<rightarrow>2
  of weight \<open>DBL_MAX\<close>, a finite weight that is not negative, vertex 2 can be reached
  from the start vertex 1 and still maps to itself.
\<close>

definition saturated_graph :: "(unit, real) Digraph" where
  "saturated_graph =
     snd (addEdge 1 2 DBL_MAX (snd (addVertex 2 () (snd (addVertex 1 () Digraph_empty)))))"

lemma saturated_graph_eq:
  "saturated_graph =
     \<lparr>g_m = [1 \<mapsto> \<lparr>vinfo = (), edges = [\<lparr>fromVertex = 1, toVertex = 2, einfo = DBL_MAX\<rparr>]\<rparr>,
             2 \<mapsto> \<lparr>vinfo = (), edges = []\<rparr>],
      g_v = [1, 2], g_e = [(1, 2)], vertexC = 2, edgeC = 1\<rparr>"
  by (simp add: saturated_graph_def addEdge_def addVertex_def findVertex_def
      findVertexNotExist_def Digraph_empty_def fun_upd_twist)

lemma dbl_add_0_DBL_MAX: "dbl_add 0 DBL_MAX = DBL_MAX"
  using dbl_inf_pos by (simp add: dbl_add_def dbl_round_DBL_MAX)


text \<open>
  Weights whose exact sums stay below \<open>DBL_MAX\<close> are not enough either. With the edges
  1\<rightarrow>2 of weight \<open>(2^53 - 2) * 2^971\<close> and 2\<rightarrow>3 of weight \<open>3 * 2^969\<close> the exact sum is
  below \<open>DBL_MAX\<close>, the sum of the two doubles is \<open>DBL_MAX\<close>, and vertex 3 maps to
  itself.
\<close>

definition near_max :: real where
  "near_max = (2 ^ 53 - 2) * 2 ^ 971"

definition small_step :: real where
  "small_step = 3 * 2 ^ 969"

lemma exact_sum_below: "near_max + small_step < DBL_MAX"
  by (simp add: near_max_def small_step_def DBL_MAX_def)

lemma dbl_add_0_near_max: "dbl_add 0 near_max = near_max"
proof -
  have "\<bar>of_int (2 ^ 53 - 2) * 2 powi 971\<bar> \<le> DBL_MAX" by (simp add: DBL_MAX_def)
  from dbl_round_scaled [OF _ _ this] have "dbl_round near_max = near_max"
    by (simp add: near_max_def)
  with dbl_inf_pos show ?thesis by (simp add: dbl_add_def)
qed

lemma dbl_add_near_max: "dbl_add near_max small_step = DBL_MAX"
proof -
  define x where "x = near_max + small_step"
  have "2 ^ 1023 \<le> \<bar>x\<bar>" by (simp add: x_def near_max_def small_step_def)
  then have e: "dbl_exponent x = 1023" by (rule dbl_exponent_huge)
  have "x / 2 powi (1023 - 52) = 9007199254740990 + 3 / 4"
    by (simp add: x_def near_max_def small_step_def)
  moreover have "round_even (9007199254740990 + 3 / 4) = 9007199254740991"
    by (simp add: round_even_def)
  ultimately have k: "round_even (x / 2 powi (1023 - 52)) = 9007199254740991" by simp
  have "\<bar>2 powi (1023 - 52) * real_of_int 9007199254740991\<bar> \<le> DBL_MAX"
    by (simp add: DBL_MAX_def)
  with e k have "dbl_round x = 2 powi (1023 - 52) * of_int 9007199254740991"
    by (rule dbl_round_at)
  also have "\<dots> = DBL_MAX" by (simp add: DBL_MAX_def)
  finally have "dbl_round x = DBL_MAX" .
  moreover have "\<bar>near_max\<bar> \<noteq> dbl_inf" by (simp add: near_max_def dbl_inf_def)
  ultimately show ?thesis by (simp add: dbl_add_def x_def)
qed

definition rounded_graph :: "(unit, real) Digraph" where
  "rounded_graph =
     snd (addEdge 2 3 small_step (snd (addEdge 1 2 near_max
       (snd (addVertex 3 () (snd (addVertex 2 () (snd (addVertex 1 () Digraph_empty)))))))))"

lemma rounded_graph_eq:
  "rounded_graph =
     \<lparr>g_m = [1 \<mapsto> \<lparr>vinfo = (), edges = [\<lparr>fromVertex = 1, toVertex = 2, einfo = near_max\<rparr>]\<rparr>,
             2 \<mapsto> \<lparr>vinfo = (), edges = [\<lparr>fromVertex = 2, toVertex = 3, einfo = small_step\<rparr>]\<rparr>,
             3 \<mapsto> \<lparr>vinfo = (), edges = []\<rparr>],
      g_v = [1, 2, 3], g_e = [(1, 2), (2, 3)], vertexC = 3, edgeC = 2\<rparr>"
  by (simp add: rounded_graph_def addEdge_def addVertex_def findVertex_def
      findVertexNotExist_def Digraph_empty_def fun_upd_twist)

lemma rounded_sum_reaches_sentinel:
  "findShortestPaths 1 id rounded_graph = Inr [1 \<mapsto> 1, 2 \<mapsto> 1, 3 \<mapsto> 3] \<and>
   near_max + small_step < DBL_MAX \<and> 0 \<le> near_max \<and> 0 \<le> small_step"
proof -
  have less: "near_max < DBL_MAX" "0 \<le> near_max" "0 \<le> small_step"
    by (simp_all add: near_max_def small_step_def DBL_MAX_def)
  have "findShortestPaths 1 id rounded_graph = Inr [1 \<mapsto> 1, 2 \<mapsto> 2, 3 \<mapsto> 3, 2 \<mapsto> 1]"
    unfolding rounded_graph_eq
    by (simp add: findShortestPaths_def sp_loop.simps indexOf_def in_bounds_def pq_push_def
        pq_pop_def pq_top_def pair_less_def edgeInfo_def VertexExist_def Let_def
        dbl_add_0_near_max dbl_add_near_max less)
  also have "([1 \<mapsto> 1, 2 \<mapsto> 2, 3 \<mapsto> 3, 2 \<mapsto> 1] :: int \<rightharpoonup> int) = [1 \<mapsto> 1, 2 \<mapsto> 1, 3 \<mapsto> 3]"
    by (auto simp: fun_eq_iff)
  finally have run: "findShortestPaths 1 id rounded_graph = Inr [1 \<mapsto> 1, 2 \<mapsto> 1, 3 \<mapsto> 3]" .
  show ?thesis by (intro conjI run exact_sum_below less(2,3))
qed

text \<open>
  An instance of the amended statement: the edge 3\<rightarrow>4 of weight \<open>DBL_MAX\<close> lies on no
  path from the start vertex 1, and the only sums on the paths from 1 are 0 and 5.
\<close>

definition far_heavy_graph :: "(unit, real) Digraph" where
  "far_heavy_graph =
     snd (addEdge 3 4 DBL_MAX (snd (addEdge 1 2 5
       (snd (addVertex 4 () (snd (addVertex 3 () (snd (addVertex 2 ()
         (snd (addVertex 1 () Digraph_empty)))))))))))"

lemma far_heavy_graph_eq:
  "far_heavy_graph =
     \<lparr>g_m = [1 \<mapsto> \<lparr>vinfo = (), edges = [\<lparr>fromVertex = 1, toVertex = 2, einfo = 5\<rparr>]\<rparr>,
             2 \<mapsto> \<lparr>vinfo = (), edges = []\<rparr>,
             3 \<mapsto> \<lparr>vinfo = (), edges = [\<lparr>fromVertex = 3, toVertex = 4, einfo = DBL_MAX\<rparr>]\<rparr>,
             4 \<mapsto> \<lparr>vinfo = (), edges = []\<rparr>],
      g_v = [1, 2, 3, 4], g_e = [(1, 2), (3, 4)], vertexC = 4, edgeC = 2\<rparr>"
  by (simp add: far_heavy_graph_def addEdge_def addVertex_def findVertex_def
      findVertexNotExist_def Digraph_empty_def fun_upd_twist)

lemma far_heavy_sums:
  "path_sum far_heavy_graph (\<lambda>weight. weight) 1 xs x d \<Longrightarrow> (x = 1 \<and> d = 0) \<or> (x = 2 \<and> d = 5)"
proof (induction rule: path_sum.induct)
  case at_start
  then show ?case by simp
next
  case (along xs u d it)
  have five: "dbl_add 0 5 = 5" using dbl_add_int [of 0 5] by simp
  from along.IH show ?case
  proof
    assume "u = 1 \<and> d = 0"
    with along.hyps(2) five show ?thesis
      by (simp add: far_heavy_graph_eq out_of_def)
  next
    assume "u = 2 \<and> d = 5"
    with along.hyps(2) show ?thesis
      by (simp add: far_heavy_graph_eq out_of_def)
  qed
qed


end
